theory Spec2Isabelle
  imports Main "HOL-Library.Word" "HOL-Library.Signed_Division"
begin

unbundle bit_operations_syntax

section \<open>Data model of the x265 encoder plugin (heif\_encoder\_x265.cc)\<close>

text \<open>
  C \<^verbatim>\<open>int\<close> and \<^verbatim>\<open>uint32_t\<close> are 32-bit words. An \<^verbatim>\<open>int\<close> is read in two's
  complement (\<open>sint\<close>, \<open><s\<close>, \<open>\<le>s\<close>); its arithmetic wraps around, as the compiled code
  does. A \<^verbatim>\<open>uint32_t\<close> is read with \<open>unat\<close> and compared with \<open><\<close>.
\<close>

type_synonym c_int = "32 word"
type_synonym uint32_t = "32 word"
type_synonym uint8_t = "8 word"

text \<open>The address of an opaque object of the wrapped library; a null pointer is \<open>None\<close>.\<close>

type_synonym handle = nat

text \<open>C division of two \<^verbatim>\<open>int\<close>s truncates towards zero.\<close>

definition c_div :: "c_int \<Rightarrow> c_int \<Rightarrow> c_int" where
  "c_div a b = word_of_int (sint a sdiv sint b)"

subsection \<open>heif\_error\<close>

text \<open>
  The enumerations of heif.h, as far as this file names their members; the other members
  are kept apart by their numeric value.
\<close>

datatype heif_error_code = heif_error_Ok | heif_error_Other nat

datatype heif_suberror_code = heif_suberror_Unspecified | heif_suberror_Other nat

record heif_error =
  code :: heif_error_code
  subcode :: heif_suberror_code
  message :: string

definition kSuccess :: string where
  "kSuccess = ''Success''"

text \<open>The initialiser \<^verbatim>\<open>{ heif_error_Ok, heif_suberror_Unspecified, kSuccess }\<close>.\<close>

definition err_success :: heif_error where
  "err_success = \<lparr>code = heif_error_Ok, subcode = heif_suberror_Unspecified, message = kSuccess\<rparr>"

subsection \<open>Structures of the wrapped library that the adapter reads and writes\<close>

text \<open>
  The fields of \<^verbatim>\<open>x265_param\<close> that the adapter assigns. \<^verbatim>\<open>rc.rfConstant\<close> is a
  \<^verbatim>\<open>double\<close> that only ever receives the value of an \<^verbatim>\<open>int\<close> expression, which the
  conversion represents exactly: the model keeps that integer.
\<close>

record x265_param =
  fpsNum :: uint32_t
  fpsDenom :: uint32_t
  sourceWidth :: c_int
  sourceHeight :: c_int
  logLevel :: c_int
  rfConstant :: int
  bLossless :: c_int

text \<open>
  An output unit \<^verbatim>\<open>x265_nal\<close>: \<open>payload\<close> is the buffer the payload pointer points to
  (the bytes that may be read through it), \<open>sizeBytes\<close> the size the library declares.
\<close>

record x265_nal =
  sizeBytes :: uint32_t
  payload :: "uint8_t list"

text \<open>A \<^verbatim>\<open>uint8_t*\<close>: null, or a buffer and an offset into it.\<close>

datatype byte_ptr = nullptr | Ptr "uint8_t list" nat

subsection \<open>The adapter state\<close>

text \<open>
  \<^verbatim>\<open>struct x265_encoder_struct\<close>. \<open>params\<close> is the parameter object behind the
  pointer (allocated once, never re-seated), \<open>encoder\<close> the encoder instance handle,
  \<open>nals\<close> the array behind the batch pointer (a null pointer has no elements).
\<close>

record x265_encoder_struct =
  params :: x265_param
  encoder :: "handle option"
  nals :: "x265_nal list"
  num_nals :: uint32_t
  nal_output_counter :: uint32_t

section \<open>Parameter setters\<close>

text \<open>
  \<^verbatim>\<open>X265_LOG_NONE\<close> is a macro of x265.h, which defines it as \<open>(-1)\<close>; no property below
  depends on the value.
\<close>

definition X265_LOG_NONE :: c_int where
  "X265_LOG_NONE = - 1"

text \<open>\<^verbatim>\<open>encoder->params->rc.rfConstant = (100-quality)/2;\<close>\<close>

definition x265_set_param_quality ::
  "x265_encoder_struct \<Rightarrow> c_int \<Rightarrow> heif_error \<times> x265_encoder_struct" where
  "x265_set_param_quality enc quality =
     (err_success,
      enc\<lparr>params := (params enc)\<lparr>rfConstant := sint (c_div (100 - quality) 2)\<rparr>\<rparr>)"

text \<open>\<^verbatim>\<open>encoder->params->bLossless = enable;\<close>\<close>

definition x265_set_param_lossless ::
  "x265_encoder_struct \<Rightarrow> c_int \<Rightarrow> heif_error \<times> x265_encoder_struct" where
  "x265_set_param_lossless enc enable =
     (err_success, enc\<lparr>params := (params enc)\<lparr>bLossless := enable\<rparr>\<rparr>)"

text \<open>
  \<^verbatim>\<open>if (logging<0) logging=0;  if (logging>4) logging=4;
  encoder->params->logLevel = logging;\<close>
\<close>

definition x265_set_param_logging_level ::
  "x265_encoder_struct \<Rightarrow> c_int \<Rightarrow> heif_error \<times> x265_encoder_struct" where
  "x265_set_param_logging_level enc logging =
     (let logging1 = (if logging <s 0 then 0 else logging);
          logging2 = (if 4 <s logging1 then 4 else logging1)
      in (err_success, enc\<lparr>params := (params enc)\<lparr>logLevel := logging2\<rparr>\<rparr>))"

section \<open>The wrapped library and the host, as the adapter sees them\<close>

text \<open>
  Reading through a null pointer or past the end of a buffer is undefined behaviour; the
  model makes it a result of its own.
\<close>

datatype fault = NullDereference | OutOfBoundsRead

datatype heif_channel = heif_channel_Y | heif_channel_Cb | heif_channel_Cr

datatype heif_colorspace = heif_colorspace_YCbCr | heif_colorspace_Other nat

datatype heif_chroma = heif_chroma_420 | heif_chroma_Other nat

text \<open>
  A \<^verbatim>\<open>heif_image\<close>, as the host's accessors answer for it:
  \<^verbatim>\<open>heif_image_get_plane_readonly\<close> gives the plane pointer and the stride it stores,
  \<^verbatim>\<open>heif_image_get_width\<close> and \<^verbatim>\<open>heif_image_get_height\<close> the dimensions.
\<close>

record heif_image =
  get_plane_readonly :: "heif_channel \<Rightarrow> handle option \<times> c_int"
  get_width :: "heif_channel \<Rightarrow> c_int"
  get_height :: "heif_channel \<Rightarrow> c_int"

text \<open>The fields of \<^verbatim>\<open>x265_picture\<close> that the adapter assigns; the arrays by index.\<close>

record x265_picture =
  planes :: "nat \<Rightarrow> handle option"
  stride :: "nat \<Rightarrow> c_int"
  bitDepth :: c_int

text \<open>
  The calls into the wrapped library, in the order the adapter makes them.
  \<open>X265_encoder_open\<close> carries the handle the library answered with.
\<close>

datatype x265_call =
    X265_param_alloc
  | X265_param_default_preset string string
  | X265_param_apply_profile string
  | X265_param_free x265_param
  | X265_picture_alloc
  | X265_picture_init x265_param
  | X265_picture_free
  | X265_encoder_open x265_param "handle option"
  | X265_encoder_close handle
  | X265_encoder_encode "handle option" "x265_picture option"

text \<open>
  What one call of \<^verbatim>\<open>x265_encoder_encode\<close> answers: its return value, and what it
  stores through \<^verbatim>\<open>&encoder->nals\<close> and \<^verbatim>\<open>&encoder->num_nals\<close> (\<open>None\<close> when it
  leaves the variable alone).
\<close>

record encode_response =
  result :: c_int
  new_nals :: "x265_nal list option"
  new_num_nals :: "uint32_t option"

definition store_batch :: "encode_response \<Rightarrow> x265_encoder_struct \<Rightarrow> x265_encoder_struct" where
  "store_batch r enc =
     enc\<lparr>nals := (case new_nals r of None \<Rightarrow> nals enc | Some a \<Rightarrow> a),
         num_nals := (case new_num_nals r of None \<Rightarrow> num_nals enc | Some n \<Rightarrow> n)\<rparr>"

section \<open>Plugin description\<close>

definition MAX_PLUGIN_NAME_LENGTH :: nat where
  "MAX_PLUGIN_NAME_LENGTH = 80"

text \<open>
  \<^verbatim>\<open>x265_plugin_name\<close>: the library's version string is appended in parentheses when it
  fits into the static buffer.
\<close>

definition x265_plugin_name :: "string \<Rightarrow> string" where
  "x265_plugin_name x265_version_str =
     (let plugin_name = ''x265 HEVC encoder'' in
      if length x265_version_str + length plugin_name + 4 < MAX_PLUGIN_NAME_LENGTH
      then plugin_name @ '' ('' @ x265_version_str @ '')''
      else plugin_name)"

definition x265_query_input_colorspace :: "heif_colorspace \<times> heif_chroma" where
  "x265_query_input_colorspace = (heif_colorspace_YCbCr, heif_chroma_420)"

section \<open>Lifecycle\<close>

text \<open>
  \<^verbatim>\<open>x265_new_encoder\<close>. The argument is the parameter object as
  \<^verbatim>\<open>x265_param_alloc\<close>, \<^verbatim>\<open>x265_param_default_preset\<close> and
  \<^verbatim>\<open>x265_param_apply_profile\<close> leave it, or \<open>None\<close> when the allocation gave a null
  pointer. The result is the error value, the new adapter state (\<^verbatim>\<open>*enc\<close>) and the
  library calls made.
\<close>

definition x265_new_encoder ::
  "x265_param option \<Rightarrow> fault + (heif_error \<times> x265_encoder_struct \<times> x265_call list)" where
  "x265_new_encoder alloc =
     (case alloc of
        None \<Rightarrow> Inl NullDereference
      | Some param0 \<Rightarrow>
          let param = param0\<lparr>fpsNum := 1, fpsDenom := 1, sourceWidth := 0, sourceHeight := 0,
                              logLevel := X265_LOG_NONE\<rparr>
          in Inr (err_success,
                  \<lparr>params = param, encoder = None, nals = [], num_nals = 0,
                   nal_output_counter = 0\<rparr>,
                  [X265_param_alloc, X265_param_default_preset ''slow'' ''ssim'',
                   X265_param_apply_profile ''mainstillpicture'']))"

text \<open>
  \<^verbatim>\<open>x265_free_encoder\<close>: the parameter object is freed, the encoder instance closed when
  the handle is not null; the adapter state is deleted, so only the calls remain.
\<close>

definition close_if_open :: "x265_encoder_struct \<Rightarrow> x265_call list" where
  "close_if_open enc = (case encoder enc of Some h \<Rightarrow> [X265_encoder_close h] | None \<Rightarrow> [])"

definition x265_free_encoder :: "x265_encoder_struct \<Rightarrow> x265_call list" where
  "x265_free_encoder enc = X265_param_free (params enc) # close_if_open enc"

section \<open>Encoding an image\<close>

text \<open>
  \<^verbatim>\<open>x265_encode_image\<close>. Beside the state and the image it takes the library's answers:
  \<open>pic_alloc\<close> is the picture as \<^verbatim>\<open>x265_picture_alloc\<close> and \<^verbatim>\<open>x265_picture_init\<close>
  leave it (\<open>None\<close> for a null pointer), \<open>opened\<close> the handle from
  \<^verbatim>\<open>x265_encoder_open\<close>, \<open>r\<close> the answer of \<^verbatim>\<open>x265_encoder_encode\<close>, whose return
  value is discarded.
\<close>

definition x265_encode_image ::
  "x265_encoder_struct \<Rightarrow> heif_image \<Rightarrow> x265_picture option \<Rightarrow> handle option \<Rightarrow>
   encode_response \<Rightarrow> fault + (heif_error \<times> x265_encoder_struct \<times> x265_call list)" where
  "x265_encode_image enc img pic_alloc opened r =
     (case pic_alloc of
        None \<Rightarrow> Inl NullDereference
      | Some pic0 \<Rightarrow>
          let pic = pic0\<lparr>planes := (planes pic0)
                              (0 := fst (get_plane_readonly img heif_channel_Y),
                               1 := fst (get_plane_readonly img heif_channel_Cb),
                               2 := fst (get_plane_readonly img heif_channel_Cr)),
                          stride := (stride pic0)
                              (0 := snd (get_plane_readonly img heif_channel_Y),
                               1 := snd (get_plane_readonly img heif_channel_Cb),
                               2 := snd (get_plane_readonly img heif_channel_Cr)),
                          bitDepth := 8\<rparr>;
              enc1 = enc\<lparr>params := (params enc)
                         \<lparr>sourceWidth := get_width img heif_channel_Y AND NOT 1,
                          sourceHeight := get_height img heif_channel_Y AND NOT 1\<rparr>\<rparr>;
              enc2 = enc1\<lparr>encoder := opened\<rparr>;
              enc3 = store_batch r enc2;
              enc4 = enc3\<lparr>nal_output_counter := 0\<rparr>
          in Inr (err_success, enc4,
                  [X265_picture_alloc, X265_picture_init (params enc)] @
                  close_if_open enc1 @
                  [X265_encoder_open (params enc1) opened,
                   X265_encoder_encode (encoder enc2) (Some pic),
                   X265_picture_free]))"

section \<open>Pulling the compressed data\<close>

text \<open>
  \<^verbatim>\<open>while (**data==0 && *size>0) { (*data)++; (*size)--; }\<close>
  The pointer is the offset \<open>p\<close> into the payload buffer. The byte is read before the
  size is tested.
\<close>

function skip_zero_bytes :: "uint8_t list \<Rightarrow> nat \<Rightarrow> c_int \<Rightarrow> fault + (nat \<times> c_int)" where
  "skip_zero_bytes buf p sz =
     (if p < length buf then
        (if buf ! p = 0 \<and> 0 <s sz then skip_zero_bytes buf (Suc p) (sz - 1)
         else Inr (p, sz))
      else Inl OutOfBoundsRead)"
  by pat_completeness auto
termination
  by (relation "measure (\<lambda>(buf, p, sz). length buf - p)") auto

text \<open>The start code: the zero bytes, then \<^verbatim>\<open>(*data)++; (*size)--;\<close> for the '1' byte.\<close>

definition skip_start_code :: "uint8_t list \<Rightarrow> c_int \<Rightarrow> fault + (nat \<times> c_int)" where
  "skip_start_code buf sz =
     (case skip_zero_bytes buf 0 sz of
        Inl f \<Rightarrow> Inl f
      | Inr (p, sz') \<Rightarrow> Inr (Suc p, sz' - 1))"

text \<open>\<^verbatim>\<open>*size >= 3 && (*data)[0]==0x4e && (*data)[2]==5\<close>, evaluated left to right.\<close>

definition is_unregistered_sei :: "uint8_t list \<Rightarrow> nat \<Rightarrow> c_int \<Rightarrow> fault + bool" where
  "is_unregistered_sei buf p sz =
     (if 3 \<le>s sz then
        (if p < length buf then
           (if buf ! p = 0x4e then
              (if p + 2 < length buf then Inr (buf ! (p + 2) = 5) else Inl OutOfBoundsRead)
            else Inr False)
         else Inl OutOfBoundsRead)
      else Inr False)"

text \<open>
  The inner loop \<^verbatim>\<open>while (encoder->nal_output_counter < encoder->num_nals)\<close>: it
  returns from the function with a NAL (\<open>Output\<close>: \<^verbatim>\<open>*data\<close>, \<^verbatim>\<open>*size\<close> and the
  state), or runs out of NALs (\<open>Drained\<close>).
\<close>

datatype nal_loop_result =
    Output byte_ptr c_int x265_encoder_struct
  | Drained x265_encoder_struct
  | Faulted fault

function nal_loop :: "x265_encoder_struct \<Rightarrow> nal_loop_result" where
  "nal_loop enc =
     (if nal_output_counter enc < num_nals enc then
        (if unat (nal_output_counter enc) < length (nals enc) then
           (let nal = nals enc ! unat (nal_output_counter enc);
                enc' = enc\<lparr>nal_output_counter := nal_output_counter enc + 1\<rparr>
            in case skip_start_code (payload nal) (sizeBytes nal) of
                 Inl f \<Rightarrow> Faulted f
               | Inr (p, sz) \<Rightarrow>
                   (case is_unregistered_sei (payload nal) p sz of
                      Inl f \<Rightarrow> Faulted f
                    | Inr True \<Rightarrow> nal_loop enc'
                    | Inr False \<Rightarrow> Output (Ptr (payload nal) p) sz enc'))
         else Faulted OutOfBoundsRead)
      else Drained enc)"
  by pat_completeness auto
termination
proof (relation "measure (\<lambda>enc. unat (num_nals enc) - unat (nal_output_counter enc))")
  show "wf (measure (\<lambda>enc. unat (num_nals enc) - unat (nal_output_counter enc)))"
    by simp
next
  fix enc enc' :: x265_encoder_struct
  assume lt: "nal_output_counter enc < num_nals enc"
    and enc': "enc' = enc\<lparr>nal_output_counter := nal_output_counter enc + 1\<rparr>"
  from lt have below: "unat (nal_output_counter enc) < unat (num_nals enc)"
    by (simp add: word_less_nat_alt)
  moreover have "unat (num_nals enc) < 2 ^ 32"
    using unsigned_less [of "num_nals enc"] by simp
  ultimately have "unat (nal_output_counter enc) + unat (1::uint32_t) < 2 ^ LENGTH(32)"
    by simp
  then have "unat (nal_output_counter enc + 1) = unat (nal_output_counter enc) + unat (1::uint32_t)"
    by (simp only: unat_add_lem)
  with below enc'
  show "(enc', enc) \<in> measure (\<lambda>enc. unat (num_nals enc) - unat (nal_output_counter enc))"
    by simp
qed

text \<open>
  What a call of \<^verbatim>\<open>x265_get_compressed_data\<close> that returns leaves behind: the error
  value, \<^verbatim>\<open>*data\<close>, \<^verbatim>\<open>*size\<close>, the adapter state and the library calls made.
  \<^verbatim>\<open>*type\<close> is never written.
\<close>

record get_result =
  g_err :: heif_error
  g_data :: byte_ptr
  g_size :: c_int
  g_enc :: x265_encoder_struct
  g_calls :: "x265_call list"

text \<open>
  The outer loop \<^verbatim>\<open>for (;;)\<close>. It may run forever; each round consumes one answer of
  \<^verbatim>\<open>x265_encoder_encode\<close> from the list \<open>rs\<close>, and \<open>None\<close> says that the loop has not
  returned when the answers are used up. \<open>calls\<close> are the library calls made so far.
\<close>

fun encode_loop ::
  "x265_encoder_struct \<Rightarrow> encode_response list \<Rightarrow> x265_call list \<Rightarrow>
   (fault + get_result) option" where
  "encode_loop enc rs calls =
     (case nal_loop enc of
        Faulted f \<Rightarrow> Some (Inl f)
      | Output d sz enc' \<Rightarrow>
          Some (Inr \<lparr>g_err = err_success, g_data = d, g_size = sz, g_enc = enc',
                     g_calls = calls\<rparr>)
      | Drained enc' \<Rightarrow>
          (case rs of
             [] \<Rightarrow> None
           | r # rs' \<Rightarrow>
               (if result r \<le>s 0 then
                  Some (Inr \<lparr>g_err = err_success, g_data = nullptr, g_size = 0,
                             g_enc = store_batch r enc',
                             g_calls = calls @ [X265_encoder_encode (encoder enc') None]\<rparr>)
                else encode_loop (store_batch r enc') rs'
                       (calls @ [X265_encoder_encode (encoder enc') None]))))"

text \<open>\<^verbatim>\<open>x265_get_compressed_data\<close>: the null check, then the loop.\<close>

definition x265_get_compressed_data ::
  "x265_encoder_struct \<Rightarrow> encode_response list \<Rightarrow> (fault + get_result) option" where
  "x265_get_compressed_data enc rs =
     (if encoder enc = None then
        Some (Inr \<lparr>g_err = err_success, g_data = nullptr, g_size = 0, g_enc = enc,
                   g_calls = []\<rparr>)
      else encode_loop enc rs [])"

section \<open>Vocabulary of the properties\<close>

text \<open>
  A well-formed NAL: the payload buffer has exactly the declared number of bytes, and that
  number is an \<^verbatim>\<open>int\<close> (the adapter copies \<^verbatim>\<open>sizeBytes\<close> into \<^verbatim>\<open>*size\<close>).
  A framed NAL moreover holds a non-zero byte, the end of its start code.
\<close>

definition nal_wf :: "x265_nal \<Rightarrow> bool" where
  "nal_wf n \<longleftrightarrow> length (payload n) = unat (sizeBytes n) \<and> unat (sizeBytes n) < 2147483648"

definition nal_framed :: "x265_nal \<Rightarrow> bool" where
  "nal_framed n \<longleftrightarrow> nal_wf n \<and> (\<exists>b\<in>set (payload n). b \<noteq> 0)"

text \<open>
  The payload proper of a NAL is the first \<^verbatim>\<open>sizeBytes\<close> bytes of the buffer; what lies
  behind them is memory that happens to be readable. A NAL is sized when the buffer holds
  these bytes and their number is an \<^verbatim>\<open>int\<close>.
\<close>

definition declared :: "x265_nal \<Rightarrow> uint8_t list" where
  "declared n = take (unat (sizeBytes n)) (payload n)"

definition nal_sized :: "x265_nal \<Rightarrow> bool" where
  "nal_sized n \<longleftrightarrow>
     unat (sizeBytes n) \<le> length (payload n) \<and> unat (sizeBytes n) < 2147483648"

text \<open>
  The NAL that a call has returned: the element of the array that the read cursor has just
  passed.
\<close>

definition returned_nal :: "x265_encoder_struct \<Rightarrow> x265_nal" where
  "returned_nal enc = nals enc ! (unat (nal_output_counter enc) - 1)"

text \<open>
  The start code as the claims describe it: the leading zero bytes and one further byte.
  \<open>without_start_code\<close> is the payload behind it.
\<close>

definition start_code_length :: "uint8_t list \<Rightarrow> nat" where
  "start_code_length buf = Suc (length (takeWhile (\<lambda>b. b = 0) buf))"

definition without_start_code :: "uint8_t list \<Rightarrow> uint8_t list" where
  "without_start_code buf = drop 1 (dropWhile (\<lambda>b. b = 0) buf)"

text \<open>
  An ``unregistered user data SEI'': at least 3 bytes, byte 0 is \<open>0x4e\<close> and byte 2 is 5.
\<close>

definition unregistered_sei :: "uint8_t list \<Rightarrow> bool" where
  "unregistered_sei bytes \<longleftrightarrow> 3 \<le> length bytes \<and> bytes ! 0 = 0x4e \<and> bytes ! 2 = 5"

definition sei_nal :: "x265_nal \<Rightarrow> bool" where
  "sei_nal n \<longleftrightarrow> unregistered_sei (without_start_code (payload n))"

text \<open>
  The bytes that a pointer and a size denote: \<open>sz\<close> bytes from the offset on, when they lie
  in the buffer.
\<close>

definition denoted :: "byte_ptr \<Rightarrow> c_int \<Rightarrow> uint8_t list option" where
  "denoted d sz =
     (case d of
        nullptr \<Rightarrow> None
      | Ptr buf p \<Rightarrow>
          if 0 \<le> sint sz \<and> p + nat (sint sz) \<le> length buf
          then Some (take (nat (sint sz)) (drop p buf)) else None)"

text \<open>
  The batch is the first \<^verbatim>\<open>num_nals\<close> elements of the array. It is consistent when the
  array has that many elements and they are framed.
\<close>

definition batch :: "x265_encoder_struct \<Rightarrow> x265_nal list" where
  "batch enc = take (unat (num_nals enc)) (nals enc)"

definition batch_ok :: "x265_encoder_struct \<Rightarrow> bool" where
  "batch_ok enc \<longleftrightarrow>
     unat (num_nals enc) \<le> length (nals enc) \<and> (\<forall>n\<in>set (batch enc). nal_framed n)"

text \<open>
  Every batch the adapter comes to hold is consistent: the one of the state, and the one
  after each answer of the library is stored.
\<close>

fun batches_ok :: "x265_encoder_struct \<Rightarrow> encode_response list \<Rightarrow> bool" where
  "batches_ok enc [] = batch_ok enc"
| "batches_ok enc (r # rs) = (batch_ok enc \<and> batches_ok (store_batch r enc) rs)"

text \<open>The NALs the library hands over: those of the state and of the answers.\<close>

definition response_nals :: "encode_response \<Rightarrow> x265_nal set" where
  "response_nals r = (case new_nals r of None \<Rightarrow> {} | Some a \<Rightarrow> set a)"

definition offered_nals :: "x265_encoder_struct \<Rightarrow> encode_response list \<Rightarrow> x265_nal set" where
  "offered_nals enc rs = set (nals enc) \<union> (\<Union>r\<in>set rs. response_nals r)"

text \<open>The call \<^verbatim>\<open>x265_encoder_encode(encoder->encoder, .., NULL, NULL)\<close> of the loop.\<close>

definition encode_call :: "x265_encoder_struct \<Rightarrow> x265_call" where
  "encode_call enc = X265_encoder_encode (encoder enc) None"

section \<open>Sessions of the adapter and the instances they leave open\<close>

text \<open>
  The encoder instances that are open after a library call: \<^verbatim>\<open>x265_encoder_open\<close> adds
  the handle it returns (a null pointer is no instance), \<^verbatim>\<open>x265_encoder_close\<close> removes
  the handle it is given. \<open>never_two_open\<close> says that at no point of a sequence of calls
  more than one instance is open.
\<close>

fun track_open :: "x265_call \<Rightarrow> handle list \<Rightarrow> handle list" where
  "track_open (X265_encoder_open _ (Some h)) os = h # os"
| "track_open (X265_encoder_close h) os = remove1 h os"
| "track_open _ os = os"

fun never_two_open :: "handle list \<Rightarrow> x265_call list \<Rightarrow> bool" where
  "never_two_open os [] = (length os \<le> 1)"
| "never_two_open os (c # cs) = (length os \<le> 1 \<and> never_two_open (track_open c os) cs)"

text \<open>The instance the adapter state refers to.\<close>

definition open_of :: "x265_encoder_struct \<Rightarrow> handle list" where
  "open_of enc = (case encoder enc of None \<Rightarrow> [] | Some h \<Rightarrow> [h])"

text \<open>
  A session: the host's calls on one adapter state after \<^verbatim>\<open>x265_new_encoder\<close>, each
  with the library's answers. \<open>run_calls\<close> gives the final state and the library calls
  made, or \<open>None\<close> when one of the calls does not return.
\<close>

datatype adapter_call =
    Set_param_quality c_int
  | Set_param_lossless c_int
  | Set_param_logging_level c_int
  | Encode_image heif_image "x265_picture option" "handle option" encode_response
  | Get_compressed_data "encode_response list"

fun run_call ::
  "x265_encoder_struct \<Rightarrow> adapter_call \<Rightarrow> (x265_encoder_struct \<times> x265_call list) option" where
  "run_call enc (Set_param_quality q) = Some (snd (x265_set_param_quality enc q), [])"
| "run_call enc (Set_param_lossless b) = Some (snd (x265_set_param_lossless enc b), [])"
| "run_call enc (Set_param_logging_level l) = Some (snd (x265_set_param_logging_level enc l), [])"
| "run_call enc (Encode_image img pic_alloc opened r) =
     (case x265_encode_image enc img pic_alloc opened r of
        Inl f \<Rightarrow> None
      | Inr (e, enc', cs) \<Rightarrow> Some (enc', cs))"
| "run_call enc (Get_compressed_data rs) =
     (case x265_get_compressed_data enc rs of
        Some (Inr g) \<Rightarrow> Some (g_enc g, g_calls g)
      | _ \<Rightarrow> None)"

fun run_calls ::
  "x265_encoder_struct \<Rightarrow> adapter_call list \<Rightarrow> (x265_encoder_struct \<times> x265_call list) option" where
  "run_calls enc [] = Some (enc, [])"
| "run_calls enc (a # as) =
     (case run_call enc a of
        None \<Rightarrow> None
      | Some (enc', cs) \<Rightarrow>
          (case run_calls enc' as of
             None \<Rightarrow> None
           | Some (enc'', cs') \<Rightarrow> Some (enc'', cs @ cs')))"

text \<open>
  The host pulling \<open>k\<close> times without the library being asked again: the pointers and
  sizes it receives, up to the first call that does not return data of the batch.
  \<open>stripped\<close> is the pointer and the size of a NAL behind its start code.
\<close>

fun pull_all :: "nat \<Rightarrow> x265_encoder_struct \<Rightarrow> (byte_ptr \<times> c_int) list" where
  "pull_all 0 enc = []"
| "pull_all (Suc k) enc =
     (case x265_get_compressed_data enc [] of
        Some (Inr g) \<Rightarrow> (g_data g, g_size g) # pull_all k (g_enc g)
      | _ \<Rightarrow> [])"

definition stripped :: "x265_nal \<Rightarrow> byte_ptr \<times> c_int" where
  "stripped n =
     (Ptr (payload n) (start_code_length (payload n)),
      of_nat (length (without_start_code (payload n))))"

section \<open>Sample values\<close>

text \<open>A parameter object and a freshly created adapter state, for concrete evaluation.\<close>

definition sample_param :: x265_param where
  "sample_param =
     \<lparr>fpsNum = 1, fpsDenom = 1, sourceWidth = 0, sourceHeight = 0, logLevel = - 1,
      rfConstant = 28, bLossless = 0\<rparr>"

definition sample_enc :: x265_encoder_struct where
  "sample_enc =
     \<lparr>params = sample_param, encoder = None, nals = [], num_nals = 0,
      nal_output_counter = 0\<rparr>"

text \<open>
  NALs as the library emits them (start code, then the NAL header), an
  ``unregistered user data SEI'' among them, and a payload of zero bytes only.
\<close>

definition framed_nal_example :: x265_nal where
  "framed_nal_example = \<lparr>sizeBytes = 6, payload = [0, 0, 0, 1, 0x40, 0x01]\<rparr>"

definition sei_nal_example :: x265_nal where
  "sei_nal_example = \<lparr>sizeBytes = 7, payload = [0, 0, 1, 0x4e, 0x01, 5, 0xff]\<rparr>"

definition zero_nal_example :: x265_nal where
  "zero_nal_example = \<lparr>sizeBytes = 3, payload = [0, 0, 0]\<rparr>"

definition sample_image :: heif_image where
  "sample_image =
     \<lparr>get_plane_readonly = (\<lambda>c. (Some 7, 64)), get_width = (\<lambda>c. 64),
      get_height = (\<lambda>c. 48)\<rparr>"

definition sample_picture :: x265_picture where
  "sample_picture = \<lparr>planes = (\<lambda>i. None), stride = (\<lambda>i. 0), bitDepth = 0\<rparr>"

text \<open>
  Answers of \<^verbatim>\<open>x265_encoder_encode\<close>: a batch of two NALs, a batch of one NAL, and the
  end of the stream (return value 0, the count set to 0, the array pointer left alone).
\<close>

definition first_batch :: encode_response where
  "first_batch =
     \<lparr>result = 1, new_nals = Some [sei_nal_example, framed_nal_example],
      new_num_nals = Some 2\<rparr>"

definition refill :: encode_response where
  "refill = \<lparr>result = 1, new_nals = Some [framed_nal_example], new_num_nals = Some 1\<rparr>"

definition end_of_stream :: encode_response where
  "end_of_stream = \<lparr>result = 0, new_nals = None, new_num_nals = Some 0\<rparr>"

text \<open>
  The state after \<^verbatim>\<open>x265_encode_image\<close> has opened the instance 1 and fetched
  \<open>first_batch\<close>, and the state after the NALs of that batch have been pulled.
\<close>

definition sample_batch_enc :: x265_encoder_struct where
  "sample_batch_enc =
     \<lparr>params = sample_param\<lparr>sourceWidth := 64, sourceHeight := 48\<rparr>, encoder = Some 1,
      nals = [sei_nal_example, framed_nal_example], num_nals = 2, nal_output_counter = 0\<rparr>"

definition drained_enc :: x265_encoder_struct where
  "drained_enc = sample_batch_enc\<lparr>nal_output_counter := 2\<rparr>"

text \<open>
  A NAL of three zero bytes with a readable zero byte behind it, a NAL of \<open>2^31 + 1\<close>
  bytes that begins with the start code \<open>00 01\<close>, and adapter states that hold them.
\<close>

definition padded_zero_nal :: x265_nal where
  "padded_zero_nal = \<lparr>sizeBytes = 3, payload = [0, 0, 0, 0]\<rparr>"

definition zero_batch_enc :: x265_encoder_struct where
  "zero_batch_enc =
     \<lparr>params = sample_param, encoder = Some 1, nals = [padded_zero_nal], num_nals = 1,
      nal_output_counter = 0\<rparr>"

definition huge_nal :: x265_nal where
  "huge_nal = \<lparr>sizeBytes = 2147483649, payload = 0 # 1 # replicate 2147483647 7\<rparr>"

definition huge_batch_enc :: x265_encoder_struct where
  "huge_batch_enc =
     \<lparr>params = sample_param, encoder = Some 1, nals = [huge_nal], num_nals = 1,
      nal_output_counter = 0\<rparr>"

text \<open>
  A batch of three NALs, none of them an SEI, as an answer to a fetch of
  \<^verbatim>\<open>x265_get_compressed_data\<close>, and the state after that fetch from \<open>drained_enc\<close>.
\<close>

definition sps_nal_example :: x265_nal where
  "sps_nal_example = \<lparr>sizeBytes = 6, payload = [0, 0, 0, 1, 0x42, 0x01]\<rparr>"

definition pps_nal_example :: x265_nal where
  "pps_nal_example = \<lparr>sizeBytes = 5, payload = [0, 0, 1, 0x44, 0x01]\<rparr>"

definition header_batch :: encode_response where
  "header_batch =
     \<lparr>result = 1, new_nals = Some [framed_nal_example, sps_nal_example, pps_nal_example],
      new_num_nals = Some 3\<rparr>"

definition refilled_enc :: x265_encoder_struct where
  "refilled_enc =
     drained_enc\<lparr>nals := [framed_nal_example, sps_nal_example, pps_nal_example],
                 num_nals := 3, nal_output_counter := 3\<rparr>"

text \<open>A session: two images encoded, the first one pulled to the end of the stream.\<close>

definition sample_session :: "adapter_call list" where
  "sample_session =
     [Encode_image sample_image (Some sample_picture) (Some 1) first_batch,
      Get_compressed_data [],
      Get_compressed_data [end_of_stream],
      Encode_image sample_image (Some sample_picture) (Some 2) first_batch]"

section \<open>Properties\<close>

declare skip_zero_bytes.simps [simp del]
declare nal_loop.simps [simp del]
declare encode_loop.simps [simp del]

subsection \<open>Quality to CRF\<close>

lemma sint_100_minus:
  assumes "- 2147483547 \<le> sint (q::c_int)"
  shows "sint (100 - q) = 100 - sint q"
proof -
  have "sint q < 2147483648" using sint_lt [of q] by simp
  with assms show ?thesis
    by (simp add: sint_word_ariths signed_take_bit_int_eq_self)
qed

lemma sint_c_div_2: "sint (c_div a 2) = sint a sdiv 2"
proof -
  have "- 2147483648 \<le> sint a" "sint a < 2147483648"
    using sint_ge [of a] sint_lt [of a] by simp_all
  then have "- 2147483648 \<le> sint a sdiv 2 \<and> sint a sdiv 2 < 2147483648"
    by (auto simp: signed_divide_int_def sgn_if)
  then show ?thesis
    by (simp add: c_div_def sint_sbintrunc' signed_take_bit_int_eq_self)
qed

lemma sdiv_2_mono: "(a::int) \<le> b \<Longrightarrow> a sdiv 2 \<le> b sdiv 2"
  by (auto simp: signed_divide_int_def sgn_if)

lemma crf_of_quality:
  "- 2147483547 \<le> sint q \<Longrightarrow>
   rfConstant (params (snd (x265_set_param_quality enc q))) = (100 - sint q) sdiv 2"
  by (simp add: x265_set_param_quality_def sint_c_div_2 sint_100_minus)

text \<open>
  C8, as stated, fails where \<^verbatim>\<open>100-quality\<close> leaves the range of \<^verbatim>\<open>int\<close>: for the
  least \<^verbatim>\<open>int\<close> the difference wraps around, the CRF stored is \<open>-1073741774\<close> and not
  \<open>(100 - q) / 2 = 1073741874\<close>, and it lies below the CRF of the larger quality 0.
\<close>

theorem set_param_quality_overflow:
  "sint (- 2147483648 :: c_int) \<le> sint (0 :: c_int) \<and>
   rfConstant (params (snd (x265_set_param_quality sample_enc (- 2147483648)))) = - 1073741774 \<and>
   (100 - sint (- 2147483648 :: c_int)) sdiv 2 = 1073741874 \<and>
   rfConstant (params (snd (x265_set_param_quality sample_enc 0))) = 50"
  by (simp add: x265_set_param_quality_def sint_c_div_2 signed_divide_int_def)

text \<open>
  C8, amended: for every quality \<open>q \<ge> -2147483547\<close> (so that \<^verbatim>\<open>100-quality\<close> is
  representable) \<^verbatim>\<open>x265_set_param_quality\<close> returns success and changes nothing but
  \<^verbatim>\<open>rc.rfConstant\<close>, which becomes \<open>(100 - q) / 2\<close> with truncating division; on these
  qualities the CRF does not increase when the quality grows; the qualities 0, 50 and 100
  give the CRFs 50, 25 and 0.
\<close>

theorem set_param_quality_crf:
  "(- 2147483547 \<le> sint q \<longrightarrow>
      x265_set_param_quality enc q =
        (err_success, enc\<lparr>params := (params enc)\<lparr>rfConstant := (100 - sint q) sdiv 2\<rparr>\<rparr>)) \<and>
   (- 2147483547 \<le> sint q \<and> sint q \<le> sint q' \<longrightarrow>
      rfConstant (params (snd (x265_set_param_quality enc q')))
        \<le> rfConstant (params (snd (x265_set_param_quality enc q)))) \<and>
   rfConstant (params (snd (x265_set_param_quality enc 0))) = 50 \<and>
   rfConstant (params (snd (x265_set_param_quality enc 50))) = 25 \<and>
   rfConstant (params (snd (x265_set_param_quality enc 100))) = 0"
proof (intro conjI impI)
  assume "- 2147483547 \<le> sint q"
  then show "x265_set_param_quality enc q =
        (err_success, enc\<lparr>params := (params enc)\<lparr>rfConstant := (100 - sint q) sdiv 2\<rparr>\<rparr>)"
    by (simp add: x265_set_param_quality_def sint_c_div_2 sint_100_minus)
next
  assume a: "- 2147483547 \<le> sint q \<and> sint q \<le> sint q'"
  then have "(100 - sint q') sdiv 2 \<le> (100 - sint q) sdiv 2"
    by (intro sdiv_2_mono) simp
  with a show "rfConstant (params (snd (x265_set_param_quality enc q')))
        \<le> rfConstant (params (snd (x265_set_param_quality enc q)))"
    by (simp add: crf_of_quality)
next
  show "rfConstant (params (snd (x265_set_param_quality enc 0))) = 50"
    by (simp add: crf_of_quality signed_divide_int_def)
  show "rfConstant (params (snd (x265_set_param_quality enc 50))) = 25"
    by (simp add: crf_of_quality signed_divide_int_def)
  show "rfConstant (params (snd (x265_set_param_quality enc 100))) = 0"
    by (simp add: crf_of_quality signed_divide_int_def)
qed

theorem set_param_quality_crf_witness:
  "- 2147483547 \<le> sint (50::c_int) \<and> sint (50::c_int) \<le> sint (100::c_int) \<and>
   x265_set_param_quality sample_enc 50 =
     (err_success, sample_enc\<lparr>params := (params sample_enc)\<lparr>rfConstant := 25\<rparr>\<rparr>) \<and>
   rfConstant (params (snd (x265_set_param_quality sample_enc 100)))
     \<le> rfConstant (params (snd (x265_set_param_quality sample_enc 50)))"
  using set_param_quality_crf [of 50 sample_enc 100]
  by (simp add: signed_divide_int_def)

subsection \<open>Machine arithmetic\<close>

lemma sint_dec: "- 2147483648 < sint (x::c_int) \<Longrightarrow> sint (x - 1) = sint x - 1"
  using sint_lt [of x] by (simp add: sint_word_ariths signed_take_bit_int_eq_self)

lemma nal_wf_sint: "nal_wf n \<Longrightarrow> sint (sizeBytes n) = int (length (payload n))"
proof -
  assume "nal_wf n"
  then have len: "length (payload n) = unat (sizeBytes n)"
    and lt: "unat (sizeBytes n) < 2147483648"
    by (simp_all add: nal_wf_def)
  from lt have "int (unat (sizeBytes n)) < 2147483648" by linarith
  then have ub: "uint (sizeBytes n) < 2147483648" by (simp only: uint_nat)
  have "0 \<le> uint (sizeBytes n)" by simp
  then have lb: "- 2147483648 \<le> uint (sizeBytes n)" by linarith
  from lb ub have "- (2 ^ 31) \<le> uint (sizeBytes n)" "uint (sizeBytes n) < 2 ^ 31"
    by simp_all
  then have "signed_take_bit 31 (uint (sizeBytes n)) = uint (sizeBytes n)"
    by (rule signed_take_bit_int_eq_self)
  then have "sint (sizeBytes n) = uint (sizeBytes n)"
    by (simp add: sint_uint)
  also have "\<dots> = int (unat (sizeBytes n))" by (rule uint_nat)
  finally show ?thesis using len by simp
qed

subsection \<open>Skipping the start code\<close>

lemma skip_zero_bytes_nonzero:
  "p \<le> length buf \<Longrightarrow> sint sz = int (length buf) - int p \<Longrightarrow> \<exists>b\<in>set (drop p buf). b \<noteq> 0 \<Longrightarrow>
   \<exists>sz'. skip_zero_bytes buf p sz = Inr (p + length (takeWhile (\<lambda>b. b = 0) (drop p buf)), sz') \<and>
         sint sz' = int (length buf) - int (p + length (takeWhile (\<lambda>b. b = 0) (drop p buf))) \<and>
         p + length (takeWhile (\<lambda>b. b = 0) (drop p buf)) < length buf"
proof (induction buf p sz rule: skip_zero_bytes.induct)
  case (1 buf p sz)
  from "1.prems"(3) have lt: "p < length buf" by (cases "p < length buf") auto
  then have dr: "drop p buf = buf ! p # drop (Suc p) buf" by (simp add: Cons_nth_drop_Suc)
  from lt "1.prems"(2) have pos: "0 < sint sz" by simp
  show ?case
  proof (cases "buf ! p = 0")
    case True
    with pos have cond: "buf ! p = 0 \<and> 0 <s sz" by (simp add: word_sless_alt)
    from pos have "sint (sz - 1) = sint sz - 1" by (intro sint_dec) simp
    with "1.prems"(2) lt have sz1: "sint (sz - 1) = int (length buf) - int (Suc p)" by simp
    from "1.prems"(3) dr True have nz: "\<exists>b\<in>set (drop (Suc p) buf). b \<noteq> 0" by simp
    from lt have le: "Suc p \<le> length buf" by simp
    from "1.IH" [OF lt cond le sz1 nz] obtain sz' where
      r: "skip_zero_bytes buf (Suc p) (sz - 1) =
            Inr (Suc p + length (takeWhile (\<lambda>b. b = 0) (drop (Suc p) buf)), sz')"
      and s: "sint sz' = int (length buf) - int (Suc p + length (takeWhile (\<lambda>b. b = 0) (drop (Suc p) buf)))"
      and b: "Suc p + length (takeWhile (\<lambda>b. b = 0) (drop (Suc p) buf)) < length buf"
      by blast
    have tw: "length (takeWhile (\<lambda>b. b = 0) (drop p buf)) =
                Suc (length (takeWhile (\<lambda>b. b = 0) (drop (Suc p) buf)))"
      using dr True by simp
    have "skip_zero_bytes buf p sz = skip_zero_bytes buf (Suc p) (sz - 1)"
      using lt cond by (subst skip_zero_bytes.simps) simp
    with r s b tw show ?thesis by simp
  next
    case False
    then have tw: "length (takeWhile (\<lambda>b. b = 0) (drop p buf)) = 0" using dr by simp
    have "skip_zero_bytes buf p sz = Inr (p, sz)"
      using lt False by (subst skip_zero_bytes.simps) simp
    with tw "1.prems"(2) lt show ?thesis by simp
  qed
qed

lemma skip_zero_bytes_all_zero:
  "p \<le> length buf \<Longrightarrow> sint sz = int (length buf) - int p \<Longrightarrow> \<forall>b\<in>set (drop p buf). b = 0 \<Longrightarrow>
   skip_zero_bytes buf p sz = Inl OutOfBoundsRead"
proof (induction buf p sz rule: skip_zero_bytes.induct)
  case (1 buf p sz)
  show ?case
  proof (cases "p < length buf")
    case lt: True
    then have dr: "drop p buf = buf ! p # drop (Suc p) buf" by (simp add: Cons_nth_drop_Suc)
    from lt "1.prems"(2) have pos: "0 < sint sz" by simp
    from dr "1.prems"(3) have z: "buf ! p = 0" and rest: "\<forall>b\<in>set (drop (Suc p) buf). b = 0"
      by simp_all
    from z pos have cond: "buf ! p = 0 \<and> 0 <s sz" by (simp add: word_sless_alt)
    from pos have "sint (sz - 1) = sint sz - 1" by (intro sint_dec) simp
    with "1.prems"(2) lt have sz1: "sint (sz - 1) = int (length buf) - int (Suc p)" by simp
    from lt have le: "Suc p \<le> length buf" by simp
    have "skip_zero_bytes buf p sz = skip_zero_bytes buf (Suc p) (sz - 1)"
      using lt cond by (subst skip_zero_bytes.simps) simp
    with "1.IH" [OF lt cond le sz1 rest] show ?thesis by simp
  next
    case False
    then show ?thesis by (subst skip_zero_bytes.simps) simp
  qed
qed

lemma without_start_code_drop:
  "without_start_code buf = drop (start_code_length buf) buf"
  by (simp add: without_start_code_def start_code_length_def dropWhile_eq_drop)

lemma skip_start_code_nonzero:
  assumes wf: "nal_wf n" and nz: "\<exists>b\<in>set (payload n). b \<noteq> 0"
  shows "\<exists>sz'. skip_start_code (payload n) (sizeBytes n) = Inr (start_code_length (payload n), sz') \<and>
           sint sz' = int (length (payload n)) - int (start_code_length (payload n)) \<and>
           start_code_length (payload n) \<le> length (payload n)"
proof -
  let ?buf = "payload n"
  let ?k = "length (takeWhile (\<lambda>b. b = 0) ?buf)"
  from wf have s: "sint (sizeBytes n) = int (length ?buf) - int 0" by (simp add: nal_wf_sint)
  from nz have nz0: "\<exists>b\<in>set (drop 0 ?buf). b \<noteq> 0" by simp
  from skip_zero_bytes_nonzero [OF _ s nz0] obtain sz1 where
    r: "skip_zero_bytes ?buf 0 (sizeBytes n) = Inr (?k, sz1)"
    and s1: "sint sz1 = int (length ?buf) - int ?k" and lt: "?k < length ?buf"
    by auto
  from s1 lt have "sint (sz1 - 1) = sint sz1 - 1" by (intro sint_dec) simp
  with r s1 lt show ?thesis
    by (simp add: skip_start_code_def start_code_length_def)
qed

lemma skip_start_code_all_zero:
  assumes wf: "nal_wf n" and z: "\<forall>b\<in>set (payload n). b = 0"
  shows "skip_start_code (payload n) (sizeBytes n) = Inl OutOfBoundsRead"
proof -
  from wf have s: "sint (sizeBytes n) = int (length (payload n)) - int 0" by (simp add: nal_wf_sint)
  from z have "\<forall>b\<in>set (drop 0 (payload n)). b = 0" by simp
  from skip_zero_bytes_all_zero [OF _ s this] show ?thesis
    by (simp add: skip_start_code_def)
qed

lemma skip_start_code_wf:
  assumes wf: "nal_wf n" and r: "skip_start_code (payload n) (sizeBytes n) = Inr (p, sz)"
  shows "p = start_code_length (payload n) \<and> p \<le> length (payload n) \<and>
         sint sz = int (length (payload n)) - int p"
proof (cases "\<exists>b\<in>set (payload n). b \<noteq> 0")
  case True
  from skip_start_code_nonzero [OF wf True] r show ?thesis by auto
next
  case False
  then have "\<forall>b\<in>set (payload n). b = 0" by simp
  from skip_start_code_all_zero [OF wf this] r show ?thesis by simp
qed

lemma is_unregistered_sei_in_bounds:
  assumes "p \<le> length buf" and "sint sz = int (length buf) - int p"
  shows "is_unregistered_sei buf p sz = Inr (unregistered_sei (drop p buf))"
proof (cases "3 \<le> length buf - p")
  case True
  with assms have "3 \<le>s sz" by (simp add: word_sle_eq)
  moreover from True have "p < length buf" "p + 2 < length buf" by simp_all
  ultimately show ?thesis using True assms
    by (simp add: is_unregistered_sei_def unregistered_sei_def)
next
  case False
  with assms have "\<not> 3 \<le>s sz" by (simp add: word_sle_eq)
  with False show ?thesis
    by (simp add: is_unregistered_sei_def unregistered_sei_def)
qed

lemma denoted_in_bounds:
  assumes "p \<le> length buf" and "sint sz = int (length buf) - int p"
  shows "denoted (Ptr buf p) sz = Some (drop p buf)"
  using assms by (simp add: denoted_def)

subsection \<open>The inner loop over the batch\<close>

lemma unat_inc_below: "(c::uint32_t) < n \<Longrightarrow> unat (c + 1) = Suc (unat c)"
proof -
  assume "c < n"
  then have "unat c < unat n" by (simp add: word_less_nat_alt)
  moreover have "unat n < 2 ^ 32" using unsigned_less [of n] by simp
  ultimately have "unat c + unat (1::uint32_t) < 2 ^ LENGTH(32)" by simp
  then have "unat (c + 1) = unat c + unat (1::uint32_t)" by (simp only: unat_add_lem)
  then show ?thesis by simp
qed

text \<open>One round of the inner loop, by the cases of its body.\<close>

lemma nal_loop_step:
  assumes "nal_output_counter enc < num_nals enc"
    and "unat (nal_output_counter enc) < length (nals enc)"
    and "skip_start_code (payload (nals enc ! unat (nal_output_counter enc)))
           (sizeBytes (nals enc ! unat (nal_output_counter enc))) = Inr (p, sz)"
  shows "is_unregistered_sei (payload (nals enc ! unat (nal_output_counter enc))) p sz = Inr True \<Longrightarrow>
           nal_loop enc = nal_loop (enc\<lparr>nal_output_counter := nal_output_counter enc + 1\<rparr>)"
    and "is_unregistered_sei (payload (nals enc ! unat (nal_output_counter enc))) p sz = Inr False \<Longrightarrow>
           nal_loop enc = Output (Ptr (payload (nals enc ! unat (nal_output_counter enc))) p) sz
             (enc\<lparr>nal_output_counter := nal_output_counter enc + 1\<rparr>)"
    and "is_unregistered_sei (payload (nals enc ! unat (nal_output_counter enc))) p sz = Inl f \<Longrightarrow>
           nal_loop enc = Faulted f"
  using assms by (subst nal_loop.simps, simp)+

lemma nal_loop_done: "\<not> nal_output_counter enc < num_nals enc \<Longrightarrow> nal_loop enc = Drained enc"
  by (subst nal_loop.simps) simp

lemma nal_loop_Output:
  "nal_loop enc = Output d sz enc' \<Longrightarrow>
   \<exists>i p. unat (nal_output_counter enc) \<le> i \<and> i < unat (num_nals enc) \<and> i < length (nals enc) \<and>
     skip_start_code (payload (nals enc ! i)) (sizeBytes (nals enc ! i)) = Inr (p, sz) \<and>
     is_unregistered_sei (payload (nals enc ! i)) p sz = Inr False \<and>
     d = Ptr (payload (nals enc ! i)) p \<and>
     enc' = enc\<lparr>nal_output_counter := of_nat (Suc i)\<rparr>"
proof (induction enc rule: nal_loop.induct)
  case (1 enc)
  let ?c = "unat (nal_output_counter enc)"
  let ?nal = "nals enc ! ?c"
  let ?next = "enc\<lparr>nal_output_counter := nal_output_counter enc + 1\<rparr>"
  from "1.prems" have lt: "nal_output_counter enc < num_nals enc"
    by (subst (asm) nal_loop.simps) (simp split: if_splits)
  from "1.prems" lt have len: "?c < length (nals enc)"
    by (subst (asm) nal_loop.simps) (simp split: if_splits)
  from "1.prems" lt len obtain p0 sz0 where
    sk: "skip_start_code (payload ?nal) (sizeBytes ?nal) = Inr (p0, sz0)"
    by (subst (asm) nal_loop.simps) (auto simp: Let_def split: sum.splits)
  from lt have cu: "?c < unat (num_nals enc)" by (simp add: word_less_nat_alt)
  from lt have inc: "unat (nal_output_counter enc + 1) = Suc ?c" by (rule unat_inc_below)
  show ?case
  proof (cases "is_unregistered_sei (payload ?nal) p0 sz0")
    case (Inl f)
    from nal_loop_step(3) [OF lt len sk Inl] "1.prems" show ?thesis by simp
  next
    case (Inr b)
    show ?thesis
    proof (cases b)
      case True
      with Inr have sei: "is_unregistered_sei (payload ?nal) p0 sz0 = Inr True" by simp
      from nal_loop_step(1) [OF lt len sk sei] "1.prems"
      have "nal_loop ?next = Output d sz enc'" by simp
      from "1.IH" [OF lt len refl refl sk refl sei _ this] obtain i p where
        "unat (nal_output_counter ?next) \<le> i" "i < unat (num_nals ?next)"
        "i < length (nals ?next)"
        "skip_start_code (payload (nals ?next ! i)) (sizeBytes (nals ?next ! i)) = Inr (p, sz)"
        "is_unregistered_sei (payload (nals ?next ! i)) p sz = Inr False"
        "d = Ptr (payload (nals ?next ! i)) p"
        "enc' = ?next\<lparr>nal_output_counter := of_nat (Suc i)\<rparr>"
        by auto
      with inc show ?thesis by (intro exI [of _ i] exI [of _ p]) simp
    next
      case False
      with Inr have nsei: "is_unregistered_sei (payload ?nal) p0 sz0 = Inr False" by simp
      from nal_loop_step(2) [OF lt len sk nsei] "1.prems"
      have "d = Ptr (payload ?nal) p0" "sz = sz0" "enc' = ?next" by simp_all
      with cu len sk nsei show ?thesis
        by (intro exI [of _ ?c] exI [of _ p0]) simp
    qed
  qed
qed

lemma word_of_sint_nat: "sint (w::c_int) = int k \<Longrightarrow> w = of_nat k"
proof -
  assume "sint w = int k"
  then have "(word_of_int (sint w) :: c_int) = word_of_int (int k)" by simp
  then show ?thesis by simp
qed

lemma nal_loop_Drained:
  "nal_loop enc = Drained enc' \<Longrightarrow>
   \<not> nal_output_counter enc' < num_nals enc' \<and>
   enc' = enc\<lparr>nal_output_counter := max (nal_output_counter enc) (num_nals enc)\<rparr>"
proof (induction enc rule: nal_loop.induct)
  case (1 enc)
  let ?c = "unat (nal_output_counter enc)"
  let ?nal = "nals enc ! ?c"
  let ?next = "enc\<lparr>nal_output_counter := nal_output_counter enc + 1\<rparr>"
  show ?case
  proof (cases "nal_output_counter enc < num_nals enc")
    case False
    with "1.prems" have "enc' = enc" by (simp add: nal_loop_done)
    with False show ?thesis by (simp add: max_def)
  next
    case lt: True
    from "1.prems" lt have len: "?c < length (nals enc)"
      by (subst (asm) nal_loop.simps) (simp split: if_splits)
    from "1.prems" lt len obtain p0 sz0 where
      sk: "skip_start_code (payload ?nal) (sizeBytes ?nal) = Inr (p0, sz0)"
      by (subst (asm) nal_loop.simps) (auto simp: Let_def split: sum.splits)
    from lt have le: "nal_output_counter enc + 1 \<le> num_nals enc" by (rule inc_le)
    show ?thesis
    proof (cases "is_unregistered_sei (payload ?nal) p0 sz0")
      case (Inl f)
      from nal_loop_step(3) [OF lt len sk Inl] "1.prems" show ?thesis by simp
    next
      case (Inr b)
      show ?thesis
      proof (cases b)
        case True
        with Inr have sei: "is_unregistered_sei (payload ?nal) p0 sz0 = Inr True" by simp
        from nal_loop_step(1) [OF lt len sk sei] "1.prems"
        have "nal_loop ?next = Drained enc'" by simp
        from "1.IH" [OF lt len refl refl sk refl sei _ this]
        have "\<not> nal_output_counter enc' < num_nals enc'"
          and "enc' = ?next\<lparr>nal_output_counter := max (nal_output_counter ?next) (num_nals ?next)\<rparr>"
          by simp_all
        with lt le show ?thesis by (simp add: max_def)
      next
        case False
        with Inr have nsei: "is_unregistered_sei (payload ?nal) p0 sz0 = Inr False" by simp
        from nal_loop_step(2) [OF lt len sk nsei] "1.prems" show ?thesis by simp
      qed
    qed
  qed
qed

lemma nal_loop_batch:
  "batch_ok enc \<Longrightarrow>
   nal_loop enc =
     (case dropWhile sei_nal (drop (unat (nal_output_counter enc)) (batch enc)) of
        [] \<Rightarrow> Drained (enc\<lparr>nal_output_counter := max (nal_output_counter enc) (num_nals enc)\<rparr>)
      | nal # rest \<Rightarrow>
          Output (Ptr (payload nal) (start_code_length (payload nal)))
            (of_nat (length (without_start_code (payload nal))))
            (enc\<lparr>nal_output_counter := of_nat (unat (num_nals enc) - length rest)\<rparr>))"
proof (induction enc rule: nal_loop.induct)
  case (1 enc)
  let ?c = "unat (nal_output_counter enc)"
  let ?nal = "nals enc ! ?c"
  let ?next = "enc\<lparr>nal_output_counter := nal_output_counter enc + 1\<rparr>"
  from "1.prems" have len: "unat (num_nals enc) \<le> length (nals enc)"
    and fr: "\<forall>n\<in>set (batch enc). nal_framed n" by (simp_all add: batch_ok_def)
  from len have blen: "length (batch enc) = unat (num_nals enc)" by (simp add: batch_def)
  show ?case
  proof (cases "nal_output_counter enc < num_nals enc")
    case False
    then have "unat (num_nals enc) \<le> ?c" by (simp add: word_less_nat_alt)
    with blen have "drop ?c (batch enc) = []" by simp
    with False show ?thesis by (simp add: nal_loop_done max_def)
  next
    case lt: True
    then have cb: "?c < length (batch enc)" using blen by (simp add: word_less_nat_alt)
    with len blen have cl: "?c < length (nals enc)" by simp
    from cb blen have nth: "batch enc ! ?c = ?nal" by (simp add: batch_def)
    from cb nth have dr: "drop ?c (batch enc) = ?nal # drop (Suc ?c) (batch enc)"
      by (simp add: Cons_nth_drop_Suc [symmetric])
    from cb nth have "?nal \<in> set (batch enc)" by (metis nth_mem)
    with fr have "nal_framed ?nal" by simp
    then have wf: "nal_wf ?nal" and nz: "\<exists>b\<in>set (payload ?nal). b \<noteq> 0"
      by (simp_all add: nal_framed_def)
    from skip_start_code_nonzero [OF wf nz] obtain sz' where
      sk: "skip_start_code (payload ?nal) (sizeBytes ?nal) = Inr (start_code_length (payload ?nal), sz')"
      and s: "sint sz' = int (length (payload ?nal)) - int (start_code_length (payload ?nal))"
      and b: "start_code_length (payload ?nal) \<le> length (payload ?nal)"
      by blast
    from is_unregistered_sei_in_bounds [OF b s]
    have sei: "is_unregistered_sei (payload ?nal) (start_code_length (payload ?nal)) sz' = Inr (sei_nal ?nal)"
      by (simp add: sei_nal_def without_start_code_drop)
    from s b have "sint sz' = int (length (without_start_code (payload ?nal)))"
      by (simp add: without_start_code_drop)
    then have sz': "sz' = of_nat (length (without_start_code (payload ?nal)))"
      by (rule word_of_sint_nat)
    from lt have inc: "unat (nal_output_counter enc + 1) = Suc ?c" by (rule unat_inc_below)
    from lt have le: "nal_output_counter enc + 1 \<le> num_nals enc" by (rule inc_le)
    show ?thesis
    proof (cases "sei_nal ?nal")
      case True
      with sei have sei': "is_unregistered_sei (payload ?nal) (start_code_length (payload ?nal)) sz' = Inr True"
        by simp
      from "1.prems" have ok: "batch_ok ?next" by (simp add: batch_ok_def batch_def)
      from dr True have dw: "dropWhile sei_nal (drop ?c (batch enc)) =
          dropWhile sei_nal (drop (Suc ?c) (batch enc))" by simp
      from lt le have mx: "max (nal_output_counter enc + 1) (num_nals enc) =
          max (nal_output_counter enc) (num_nals enc)" by (auto simp: max_def)
      have bn: "batch ?next = batch enc" by (simp add: batch_def)
      note ih = "1.IH" [OF lt cl refl refl sk refl sei' _ ok]
      show ?thesis
      proof (cases "dropWhile sei_nal (drop (Suc ?c) (batch enc))")
        case Nil
        with ih inc mx bn have "nal_loop ?next =
            Drained (enc\<lparr>nal_output_counter := max (nal_output_counter enc) (num_nals enc)\<rparr>)"
          by simp
        with nal_loop_step(1) [OF lt cl sk sei'] have "nal_loop enc =
            Drained (enc\<lparr>nal_output_counter := max (nal_output_counter enc) (num_nals enc)\<rparr>)"
          by simp
        then show ?thesis by (simp only: dw Nil list.case)
      next
        case (Cons nal rest)
        with ih inc bn have "nal_loop ?next =
            Output (Ptr (payload nal) (start_code_length (payload nal)))
              (of_nat (length (without_start_code (payload nal))))
              (enc\<lparr>nal_output_counter := of_nat (unat (num_nals enc) - length rest)\<rparr>)"
          by simp
        with nal_loop_step(1) [OF lt cl sk sei'] have "nal_loop enc =
            Output (Ptr (payload nal) (start_code_length (payload nal)))
              (of_nat (length (without_start_code (payload nal))))
              (enc\<lparr>nal_output_counter := of_nat (unat (num_nals enc) - length rest)\<rparr>)"
          by simp
        then show ?thesis by (simp only: dw Cons list.case)
      qed
    next
      case False
      with sei have nsei: "is_unregistered_sei (payload ?nal) (start_code_length (payload ?nal)) sz' = Inr False"
        by simp
      from cb blen have "unat (num_nals enc) - (length (batch enc) - Suc ?c) = Suc ?c" by simp
      with nal_loop_step(2) [OF lt cl sk nsei] dr False sz' show ?thesis by simp
    qed
  qed
qed

subsection \<open>The outer loop\<close>

lemma encode_loop_Nil:
  "encode_loop enc [] calls =
     (case nal_loop enc of
        Faulted f \<Rightarrow> Some (Inl f)
      | Output d sz enc' \<Rightarrow>
          Some (Inr \<lparr>g_err = err_success, g_data = d, g_size = sz, g_enc = enc', g_calls = calls\<rparr>)
      | Drained enc' \<Rightarrow> None)"
  by (subst encode_loop.simps) (simp split: nal_loop_result.split)

lemma encode_loop_Cons:
  "encode_loop enc (r # rs) calls =
     (case nal_loop enc of
        Faulted f \<Rightarrow> Some (Inl f)
      | Output d sz enc' \<Rightarrow>
          Some (Inr \<lparr>g_err = err_success, g_data = d, g_size = sz, g_enc = enc', g_calls = calls\<rparr>)
      | Drained enc' \<Rightarrow>
          (if result r \<le>s 0 then
             Some (Inr \<lparr>g_err = err_success, g_data = nullptr, g_size = 0,
                        g_enc = store_batch r enc',
                        g_calls = calls @ [X265_encoder_encode (encoder enc') None]\<rparr>)
           else encode_loop (store_batch r enc') rs
                  (calls @ [X265_encoder_encode (encoder enc') None])))"
  by (subst encode_loop.simps) (simp split: nal_loop_result.split)

lemma nals_store_batch: "set (nals (store_batch r enc)) \<subseteq> set (nals enc) \<union> response_nals r"
  by (auto simp: store_batch_def response_nals_def split: option.splits)

lemma offered_nals_store:
  "nals enc' = nals enc \<Longrightarrow> offered_nals (store_batch r enc') rs \<subseteq> offered_nals enc (r # rs)"
  using nals_store_batch [of r enc'] by (auto simp: offered_nals_def)

lemma encode_loop_Ptr:
  "encode_loop enc rs calls = Some (Inr g) \<Longrightarrow> g_data g = Ptr buf p \<Longrightarrow>
   \<exists>n\<in>offered_nals enc rs. buf = payload n \<and>
      skip_start_code (payload n) (sizeBytes n) = Inr (p, g_size g) \<and>
      is_unregistered_sei (payload n) p (g_size g) = Inr False"
proof (induction rs arbitrary: enc calls)
  case Nil
  from Nil.prems obtain d sz enc' where out: "nal_loop enc = Output d sz enc'"
    and g: "g = \<lparr>g_err = err_success, g_data = d, g_size = sz, g_enc = enc', g_calls = calls\<rparr>"
    by (auto simp: encode_loop_Nil split: nal_loop_result.splits)
  from nal_loop_Output [OF out] g Nil.prems(2) show ?case
    by (auto simp: offered_nals_def)
next
  case (Cons r rs)
  show ?case
  proof (cases "nal_loop enc")
    case (Output d sz enc')
    with Cons.prems(1) have g: "g = \<lparr>g_err = err_success, g_data = d, g_size = sz, g_enc = enc', g_calls = calls\<rparr>"
      by (simp add: encode_loop_Cons)
    from nal_loop_Output [OF Output] g Cons.prems(2) show ?thesis
      by (auto simp: offered_nals_def)
  next
    case (Drained enc')
    from nal_loop_Drained [OF Drained] have same: "nals enc' = nals enc" by simp
    from Cons.prems Drained have pos: "\<not> result r \<le>s 0"
      by (auto simp: encode_loop_Cons split: if_splits)
    with Cons.prems(1) Drained have
      "encode_loop (store_batch r enc') rs (calls @ [X265_encoder_encode (encoder enc') None]) = Some (Inr g)"
      by (simp add: encode_loop_Cons)
    from Cons.IH [OF this Cons.prems(2)] offered_nals_store [OF same, of r rs]
    show ?thesis by blast
  next
    case (Faulted f)
    with Cons.prems(1) show ?thesis by (simp add: encode_loop_Cons)
  qed
qed

lemma store_batch_fields [simp]:
  "encoder (store_batch r enc) = encoder enc"
  "params (store_batch r enc) = params enc"
  "nal_output_counter (store_batch r enc) = nal_output_counter enc"
  by (simp_all add: store_batch_def)

lemma nal_loop_Output_fields:
  "nal_loop enc = Output d sz enc' \<Longrightarrow>
   encoder enc' = encoder enc \<and> params enc' = params enc \<and> nals enc' = nals enc \<and>
   num_nals enc' = num_nals enc \<and> (\<exists>buf p. d = Ptr buf p)"
  by (drule nal_loop_Output) auto

lemma nal_loop_Drained_fields:
  "nal_loop enc = Drained enc' \<Longrightarrow>
   encoder enc' = encoder enc \<and> params enc' = params enc \<and> nals enc' = nals enc \<and>
   num_nals enc' = num_nals enc"
  by (drule nal_loop_Drained) auto

text \<open>The calls of the loop: one \<^verbatim>\<open>x265_encoder_encode\<close> with a null picture per round.\<close>

lemma encode_loop_calls:
  "encode_loop enc rs calls = Some (Inr g) \<Longrightarrow>
   \<exists>k. g_calls g = calls @ replicate k (encode_call enc) \<and> k \<le> length rs \<and>
       (k = 0 \<longrightarrow> (\<exists>buf p. g_data g = Ptr buf p)) \<and>
       encoder (g_enc g) = encoder enc \<and> params (g_enc g) = params enc \<and>
       g_err g = err_success"
proof (induction rs arbitrary: enc calls)
  case Nil
  then obtain d sz enc' where out: "nal_loop enc = Output d sz enc'"
    and g: "g = \<lparr>g_err = err_success, g_data = d, g_size = sz, g_enc = enc', g_calls = calls\<rparr>"
    by (auto simp: encode_loop_Nil split: nal_loop_result.splits)
  from nal_loop_Output_fields [OF out] g show ?case
    by (intro exI [of _ 0]) auto
next
  case (Cons r rs)
  show ?case
  proof (cases "nal_loop enc")
    case (Output d sz enc')
    with Cons.prems have g: "g = \<lparr>g_err = err_success, g_data = d, g_size = sz, g_enc = enc', g_calls = calls\<rparr>"
      by (simp add: encode_loop_Cons)
    from nal_loop_Output_fields [OF Output] g show ?thesis
      by (intro exI [of _ 0]) auto
  next
    case (Drained enc')
    note f = nal_loop_Drained_fields [OF Drained]
    show ?thesis
    proof (cases "result r \<le>s 0")
      case True
      with Cons.prems Drained have "g = \<lparr>g_err = err_success, g_data = nullptr, g_size = 0,
          g_enc = store_batch r enc',
          g_calls = calls @ [X265_encoder_encode (encoder enc') None]\<rparr>"
        by (simp add: encode_loop_Cons)
      with f show ?thesis by (intro exI [of _ 1]) (simp add: encode_call_def)
    next
      case False
      with Cons.prems Drained have
        "encode_loop (store_batch r enc') rs (calls @ [X265_encoder_encode (encoder enc') None]) = Some (Inr g)"
        by (simp add: encode_loop_Cons)
      from Cons.IH [OF this] obtain k where
        k: "g_calls g = (calls @ [X265_encoder_encode (encoder enc') None]) @
              replicate k (encode_call (store_batch r enc'))"
        "k \<le> length rs"
        "encoder (g_enc g) = encoder (store_batch r enc')"
        "params (g_enc g) = params (store_batch r enc')" "g_err g = err_success"
        by blast
      with f show ?thesis
        by (intro exI [of _ "Suc k"]) (simp add: encode_call_def)
    qed
  next
    case (Faulted f)
    with Cons.prems show ?thesis by (simp add: encode_loop_Cons)
  qed
qed

subsection \<open>Claims about the start code\<close>

text \<open>
  C5, as stated, fails for a payload without a non-zero byte. For the well-formed NAL of
  three zero bytes, and for the empty payload, the loop reads the byte at the payload's
  end before it tests the size. When the byte behind a three-byte payload of zeros is
  readable and zero as well, the pointer ends at offset 4, past the payload, and
  \<^verbatim>\<open>*size\<close> is \<open>-1\<close>.
\<close>

theorem skip_start_code_all_zero_payload:
  "nal_wf zero_nal_example \<and>
   skip_start_code (payload zero_nal_example) (sizeBytes zero_nal_example) = Inl OutOfBoundsRead \<and>
   skip_start_code [] 0 = Inl OutOfBoundsRead \<and>
   skip_start_code [0, 0, 0, 0] 3 = Inr (4, - 1) \<and> sint (- 1 :: c_int) = - 1"
  by (simp add: zero_nal_example_def nal_wf_def skip_start_code_def skip_zero_bytes.simps
      word_sless_alt)

text \<open>
  C5, amended: for every well-formed NAL payload that holds a non-zero byte, skipping the
  start code ends without a read at or past the payload's end, with the pointer at most at
  the payload's end and \<^verbatim>\<open>*size\<close> non-negative; pointer offset and size add up to the
  payload's size.
\<close>

theorem skip_start_code_in_bounds:
  "nal_framed n \<Longrightarrow>
   \<exists>p sz. skip_start_code (payload n) (sizeBytes n) = Inr (p, sz) \<and>
          p = start_code_length (payload n) \<and> p \<le> length (payload n) \<and>
          0 \<le> sint sz \<and> int p + sint sz = int (length (payload n))"
proof -
  assume "nal_framed n"
  then have wf: "nal_wf n" and nz: "\<exists>b\<in>set (payload n). b \<noteq> 0"
    by (simp_all add: nal_framed_def)
  from skip_start_code_nonzero [OF wf nz] show ?thesis by auto
qed

theorem skip_start_code_in_bounds_witness:
  "nal_framed framed_nal_example \<and>
   skip_start_code (payload framed_nal_example) (sizeBytes framed_nal_example) = Inr (4, 2) \<and>
   start_code_length (payload framed_nal_example) = 4 \<and> sint (2::c_int) = 2"
proof -
  have fr: "nal_framed framed_nal_example"
    by (simp add: nal_framed_def nal_wf_def framed_nal_example_def)
  from skip_start_code_in_bounds [OF fr] fr show ?thesis
    by (simp add: framed_nal_example_def start_code_length_def skip_start_code_def
        skip_zero_bytes.simps word_sless_alt)
qed

subsection \<open>Claims about the NALs returned\<close>

lemma is_unregistered_sei_False:
  "is_unregistered_sei buf p sz = Inr False \<Longrightarrow>
   \<not> (3 \<le> sint sz \<and> buf ! p = 0x4e \<and> buf ! (p + 2) = 5)"
  by (auto simp: is_unregistered_sei_def word_sle_eq split: if_splits)

lemma get_compressed_data_Ptr:
  assumes "x265_get_compressed_data enc rs = Some (Inr g)" and "g_data g = Ptr buf p"
  shows "\<exists>n\<in>offered_nals enc rs. buf = payload n \<and>
      skip_start_code (payload n) (sizeBytes n) = Inr (p, g_size g) \<and>
      is_unregistered_sei (payload n) p (g_size g) = Inr False"
proof (cases "encoder enc = None")
  case True
  with assms show ?thesis by (auto simp: x265_get_compressed_data_def)
next
  case False
  with assms(1) have "encode_loop enc rs [] = Some (Inr g)"
    by (simp add: x265_get_compressed_data_def)
  from encode_loop_Ptr [OF this assms(2)] show ?thesis .
qed

lemma get_compressed_data_loop:
  "encoder enc \<noteq> None \<Longrightarrow> x265_get_compressed_data enc rs = encode_loop enc rs []"
  by (auto simp: x265_get_compressed_data_def)

lemma sample_batch_get:
  "x265_get_compressed_data sample_batch_enc [] =
     Some (Inr \<lparr>g_err = err_success, g_data = Ptr [0, 0, 0, 1, 0x40, 0x01] 4, g_size = 2,
                g_enc = sample_batch_enc\<lparr>nal_output_counter := 2\<rparr>, g_calls = []\<rparr>)"
  by (simp add: x265_get_compressed_data_def sample_batch_enc_def encode_loop.simps
      nal_loop.simps skip_start_code_def skip_zero_bytes.simps is_unregistered_sei_def
      sei_nal_example_def framed_nal_example_def word_sless_alt word_sle_eq)

lemma sample_batch_ok: "batch_ok sample_batch_enc"
  by (simp add: batch_ok_def batch_def sample_batch_enc_def nal_framed_def nal_wf_def
      sei_nal_example_def framed_nal_example_def)

lemma nal_sized_sint: "nal_sized n \<Longrightarrow> sint (sizeBytes n) = int (unat (sizeBytes n))"
proof -
  assume "nal_sized n"
  then have lt: "unat (sizeBytes n) < 2147483648" by (simp add: nal_sized_def)
  from lt have "int (unat (sizeBytes n)) < 2147483648" by linarith
  then have ub: "uint (sizeBytes n) < 2147483648" by (simp only: uint_nat)
  have "0 \<le> uint (sizeBytes n)" by simp
  then have lb: "- 2147483648 \<le> uint (sizeBytes n)" by linarith
  from lb ub have "- (2 ^ 31) \<le> uint (sizeBytes n)" "uint (sizeBytes n) < 2 ^ 31"
    by simp_all
  then have "signed_take_bit 31 (uint (sizeBytes n)) = uint (sizeBytes n)"
    by (rule signed_take_bit_int_eq_self)
  then have "sint (sizeBytes n) = uint (sizeBytes n)"
    by (simp add: sint_uint)
  also have "\<dots> = int (unat (sizeBytes n))" by (rule uint_nat)
  finally show ?thesis .
qed

lemma skip_zero_bytes_within:
  "p \<le> m \<Longrightarrow> m \<le> length buf \<Longrightarrow> sint sz = int m - int p \<Longrightarrow>
   \<exists>b\<in>set (drop p (take m buf)). b \<noteq> 0 \<Longrightarrow>
   \<exists>sz'. skip_zero_bytes buf p sz =
           Inr (p + length (takeWhile (\<lambda>b. b = 0) (drop p (take m buf))), sz') \<and>
         sint sz' = int m - int (p + length (takeWhile (\<lambda>b. b = 0) (drop p (take m buf)))) \<and>
         p + length (takeWhile (\<lambda>b. b = 0) (drop p (take m buf))) < m"
proof (induction buf p sz rule: skip_zero_bytes.induct)
  case (1 buf p sz)
  from "1.prems"(2,4) have pm: "p < m" by (cases "p < m") auto
  with "1.prems"(2) have lt: "p < length buf" by simp
  from pm "1.prems"(2) have "p < length (take m buf)" by simp
  then have "drop p (take m buf) = take m buf ! p # drop (Suc p) (take m buf)"
    by (rule Cons_nth_drop_Suc [symmetric])
  moreover from pm have "take m buf ! p = buf ! p" by simp
  ultimately have dr: "drop p (take m buf) = buf ! p # drop (Suc p) (take m buf)"
    by (simp only:)
  from pm "1.prems"(3) have pos: "0 < sint sz" by simp
  show ?case
  proof (cases "buf ! p = 0")
    case True
    with pos have cond: "buf ! p = 0 \<and> 0 <s sz" by (simp add: word_sless_alt)
    from pos have "sint (sz - 1) = sint sz - 1" by (intro sint_dec) simp
    with "1.prems"(3) pm have sz1: "sint (sz - 1) = int m - int (Suc p)" by simp
    from "1.prems"(4) dr True have nz: "\<exists>b\<in>set (drop (Suc p) (take m buf)). b \<noteq> 0" by simp
    from pm have le: "Suc p \<le> m" by simp
    from "1.IH" [OF lt cond le "1.prems"(2) sz1 nz] obtain sz' where
      r: "skip_zero_bytes buf (Suc p) (sz - 1) =
            Inr (Suc p + length (takeWhile (\<lambda>b. b = 0) (drop (Suc p) (take m buf))), sz')"
      and s: "sint sz' = int m - int (Suc p + length (takeWhile (\<lambda>b. b = 0) (drop (Suc p) (take m buf))))"
      and b: "Suc p + length (takeWhile (\<lambda>b. b = 0) (drop (Suc p) (take m buf))) < m"
      by blast
    have tw: "length (takeWhile (\<lambda>b. b = 0) (drop p (take m buf))) =
                Suc (length (takeWhile (\<lambda>b. b = 0) (drop (Suc p) (take m buf))))"
      using dr True by simp
    have "skip_zero_bytes buf p sz = skip_zero_bytes buf (Suc p) (sz - 1)"
      using lt cond by (subst skip_zero_bytes.simps) simp
    with r s b tw show ?thesis by simp
  next
    case False
    then have tw: "length (takeWhile (\<lambda>b. b = 0) (drop p (take m buf))) = 0" using dr by simp
    have "skip_zero_bytes buf p sz = Inr (p, sz)"
      using lt False by (subst skip_zero_bytes.simps) simp
    with tw "1.prems"(3) pm show ?thesis by simp
  qed
qed

lemma skip_start_code_declared:
  assumes sized: "nal_sized n" and nz: "\<exists>b\<in>set (declared n). b \<noteq> 0"
    and sk: "skip_start_code (payload n) (sizeBytes n) = Inr (p, sz)"
  shows "p = start_code_length (declared n) \<and>
         denoted (Ptr (payload n) p) sz = Some (without_start_code (declared n))"
proof -
  let ?m = "unat (sizeBytes n)"
  let ?k = "length (takeWhile (\<lambda>b. b = 0) (take ?m (payload n)))"
  from sized have le: "?m \<le> length (payload n)" by (simp add: nal_sized_def)
  from sized have s: "sint (sizeBytes n) = int ?m - int 0" by (simp add: nal_sized_sint)
  from nz have nz0: "\<exists>b\<in>set (drop 0 (take ?m (payload n))). b \<noteq> 0" by (simp add: declared_def)
  from skip_zero_bytes_within [OF _ le s nz0] obtain sz1 where
    r: "skip_zero_bytes (payload n) 0 (sizeBytes n) = Inr (?k, sz1)"
    and s1: "sint sz1 = int ?m - int ?k" and lt: "?k < ?m"
    by auto
  from s1 lt have "0 < sint sz1" by linarith
  then have s2: "sint (sz1 - 1) = sint sz1 - 1" by (intro sint_dec) linarith
  from r sk have p: "p = Suc ?k" and sz: "sz = sz1 - 1" by (simp_all add: skip_start_code_def)
  from s1 s2 sz lt p have szp: "sint sz = int ?m - int p" by simp
  from p lt have pm: "p \<le> ?m" by simp
  from szp pm have n: "nat (sint sz) = ?m - p" by linarith
  from szp pm have nn: "0 \<le> sint sz" by linarith
  from pm le n have "p + nat (sint sz) \<le> length (payload n)" by linarith
  with nn have "denoted (Ptr (payload n) p) sz = Some (take (nat (sint sz)) (drop p (payload n)))"
    by (simp add: denoted_def)
  then have "denoted (Ptr (payload n) p) sz = Some (take (?m - p) (drop p (payload n)))"
    by (simp only: n)
  also have "take (?m - p) (drop p (payload n)) = drop p (take ?m (payload n))"
    by (simp add: drop_take)
  finally have "denoted (Ptr (payload n) p) sz = Some (drop p (declared n))"
    by (simp add: declared_def)
  moreover from p have "p = start_code_length (declared n)"
    by (simp add: start_code_length_def declared_def)
  ultimately show ?thesis by (simp add: without_start_code_drop)
qed

lemma nal_loop_returned_nal:
  assumes "nal_loop enc = Output d sz enc'"
  shows "returned_nal enc' \<in> set (nals enc') \<and>
    (\<exists>p. d = Ptr (payload (returned_nal enc')) p \<and>
     skip_start_code (payload (returned_nal enc')) (sizeBytes (returned_nal enc')) = Inr (p, sz))"
proof -
  from nal_loop_Output [OF assms] obtain i p where
    i: "i < unat (num_nals enc)"
    and il: "i < length (nals enc)"
    and sk: "skip_start_code (payload (nals enc ! i)) (sizeBytes (nals enc ! i)) = Inr (p, sz)"
    and d: "d = Ptr (payload (nals enc ! i)) p"
    and e: "enc' = enc\<lparr>nal_output_counter := of_nat (Suc i)\<rparr>"
    by blast
  from i have "Suc i \<le> unat (num_nals enc)" by simp
  then have "unat (of_nat (Suc i) :: uint32_t) = Suc i" by (rule le_unat_uoi)
  with e have r: "returned_nal enc' = nals enc ! i" by (simp add: returned_nal_def)
  from il e have "nals enc ! i \<in> set (nals enc')" by simp
  with r sk d show ?thesis by simp
qed

lemma encode_loop_returned_nal:
  "encode_loop enc rs calls = Some (Inr g) \<Longrightarrow> g_data g = Ptr buf p \<Longrightarrow>
   returned_nal (g_enc g) \<in> set (nals (g_enc g)) \<and>
   buf = payload (returned_nal (g_enc g)) \<and>
   skip_start_code (payload (returned_nal (g_enc g))) (sizeBytes (returned_nal (g_enc g))) =
     Inr (p, g_size g)"
proof (induction rs arbitrary: enc calls)
  case Nil
  from Nil.prems obtain d sz enc' where out: "nal_loop enc = Output d sz enc'"
    and g: "g = \<lparr>g_err = err_success, g_data = d, g_size = sz, g_enc = enc', g_calls = calls\<rparr>"
    by (auto simp: encode_loop_Nil split: nal_loop_result.splits)
  from nal_loop_returned_nal [OF out] g Nil.prems(2) show ?case by auto
next
  case (Cons r rs)
  show ?case
  proof (cases "nal_loop enc")
    case (Output d sz enc')
    with Cons.prems(1) have g: "g = \<lparr>g_err = err_success, g_data = d, g_size = sz, g_enc = enc', g_calls = calls\<rparr>"
      by (simp add: encode_loop_Cons)
    from nal_loop_returned_nal [OF Output] g Cons.prems(2) show ?thesis by auto
  next
    case (Drained enc')
    from Cons.prems Drained have pos: "\<not> result r \<le>s 0"
      by (auto simp: encode_loop_Cons split: if_splits)
    with Cons.prems(1) Drained have
      "encode_loop (store_batch r enc') rs (calls @ [X265_encoder_encode (encoder enc') None]) = Some (Inr g)"
      by (simp add: encode_loop_Cons)
    from Cons.IH [OF this Cons.prems(2)] show ?thesis .
  next
    case (Faulted f)
    with Cons.prems(1) show ?thesis by (simp add: encode_loop_Cons)
  qed
qed

lemma huge_nal_returned:
  "x265_get_compressed_data huge_batch_enc [] =
     Some (Inr \<lparr>g_err = err_success, g_data = Ptr (payload huge_nal) 1, g_size = - 2147483648,
                g_enc = huge_batch_enc\<lparr>nal_output_counter := 1\<rparr>, g_calls = []\<rparr>) \<and>
   sint (- 2147483648 :: c_int) = - 2147483648 \<and>
   length (declared huge_nal) = 2147483649 \<and>
   take 2 (declared huge_nal) = [0, 1] \<and>
   start_code_length (declared huge_nal) = 2 \<and>
   denoted (Ptr (payload huge_nal) 1) (- 2147483648) = None"
  by (simp add: x265_get_compressed_data_def huge_batch_enc_def encode_loop.simps
      nal_loop.simps skip_start_code_def skip_zero_bytes.simps is_unregistered_sei_def
      huge_nal_def declared_def start_code_length_def denoted_def word_sless_alt word_sle_eq)

text \<open>
  C3, as stated, fails for two NALs that the code returns. A payload of three zero bytes
  with a readable zero byte behind it is returned with the pointer at offset 4, past the
  payload, and \<^verbatim>\<open>*size\<close> \<open>-1\<close>: pointer and size denote no bytes at all. A payload of
  \<open>2^31 + 1\<close> bytes that begins with \<open>00 01\<close> has a negative \<^verbatim>\<open>*size\<close>, so the loop
  skips no zero byte: the pointer is returned at offset 1, where the start code has length
  2, with \<^verbatim>\<open>*size\<close> \<open>-2147483648\<close>, and again pointer and size denote no bytes.
\<close>

theorem returned_nal_of_zeros:
  "x265_get_compressed_data zero_batch_enc [] =
     Some (Inr \<lparr>g_err = err_success, g_data = Ptr [0, 0, 0, 0] 4, g_size = - 1,
                g_enc = zero_batch_enc\<lparr>nal_output_counter := 1\<rparr>, g_calls = []\<rparr>) \<and>
   declared padded_zero_nal = [0, 0, 0] \<and>
   sint (- 1 :: c_int) = - 1 \<and>
   denoted (Ptr [0, 0, 0, 0] 4) (- 1) = None \<and>
   x265_get_compressed_data huge_batch_enc [] =
     Some (Inr \<lparr>g_err = err_success, g_data = Ptr (payload huge_nal) 1, g_size = - 2147483648,
                g_enc = huge_batch_enc\<lparr>nal_output_counter := 1\<rparr>, g_calls = []\<rparr>) \<and>
   sint (- 2147483648 :: c_int) = - 2147483648 \<and>
   length (declared huge_nal) = 2147483649 \<and>
   take 2 (declared huge_nal) = [0, 1] \<and>
   start_code_length (declared huge_nal) = 2 \<and>
   denoted (Ptr (payload huge_nal) 1) (- 2147483648) = None"
proof -
  have "x265_get_compressed_data zero_batch_enc [] =
     Some (Inr \<lparr>g_err = err_success, g_data = Ptr [0, 0, 0, 0] 4, g_size = - 1,
                g_enc = zero_batch_enc\<lparr>nal_output_counter := 1\<rparr>, g_calls = []\<rparr>) \<and>
   declared padded_zero_nal = [0, 0, 0] \<and>
   sint (- 1 :: c_int) = - 1 \<and>
   denoted (Ptr [0, 0, 0, 0] 4) (- 1) = None"
    by (simp add: x265_get_compressed_data_def zero_batch_enc_def encode_loop.simps
        nal_loop.simps skip_start_code_def skip_zero_bytes.simps is_unregistered_sei_def
        padded_zero_nal_def declared_def denoted_def word_sless_alt word_sle_eq)
  with huge_nal_returned show ?thesis by (simp only: simp_thms)
qed

text \<open>
  C3, amended: for every NAL (an element of the batch, the one that the read cursor has
  just passed) that \<^verbatim>\<open>x265_get_compressed_data\<close> returns whose payload
  (the first \<^verbatim>\<open>sizeBytes\<close> bytes of its buffer, \<^verbatim>\<open>sizeBytes\<close> below \<open>2^31\<close>) holds a
  non-zero byte, the pointer returned points into the NAL's buffer behind the leading
  zero bytes of the payload and one further byte, and pointer and size denote the
  payload with its leading start code removed: all leading zero bytes are skipped, then
  exactly one further byte, and the remaining bytes are returned unmodified.
\<close>

theorem returned_nal_without_start_code:
  assumes "x265_get_compressed_data enc rs = Some (Inr g)" and "g_data g = Ptr buf p"
    and "nal_sized (returned_nal (g_enc g))"
    and "\<exists>b\<in>set (declared (returned_nal (g_enc g))). b \<noteq> 0"
  shows "buf = payload (returned_nal (g_enc g)) \<and>
         p = start_code_length (declared (returned_nal (g_enc g))) \<and>
         denoted (g_data g) (g_size g) = Some (without_start_code (declared (returned_nal (g_enc g)))) \<and>
         without_start_code (declared (returned_nal (g_enc g))) =
           drop 1 (dropWhile (\<lambda>b. b = 0) (declared (returned_nal (g_enc g)))) \<and>
         returned_nal (g_enc g) \<in> set (nals (g_enc g))"
proof -
  have "encoder enc \<noteq> None"
    using assms(1,2) by (auto simp: x265_get_compressed_data_def split: if_splits)
  with assms(1) have "encode_loop enc rs [] = Some (Inr g)"
    by (simp add: get_compressed_data_loop)
  from encode_loop_returned_nal [OF this assms(2)]
  have m: "returned_nal (g_enc g) \<in> set (nals (g_enc g))"
    and b: "buf = payload (returned_nal (g_enc g))"
    and sk: "skip_start_code (payload (returned_nal (g_enc g)))
        (sizeBytes (returned_nal (g_enc g))) = Inr (p, g_size g)"
    by simp_all
  note d = skip_start_code_declared [OF assms(3,4) sk]
  from d have p: "p = start_code_length (declared (returned_nal (g_enc g)))"
    by (rule conjunct1)
  from d have "denoted (Ptr (payload (returned_nal (g_enc g))) p) (g_size g) =
      Some (without_start_code (declared (returned_nal (g_enc g))))"
    by (rule conjunct2)
  then have dn: "denoted (g_data g) (g_size g) =
      Some (without_start_code (declared (returned_nal (g_enc g))))"
    by (simp only: assms(2) b)
  have w: "without_start_code (declared (returned_nal (g_enc g))) =
      drop 1 (dropWhile (\<lambda>b. b = 0) (declared (returned_nal (g_enc g))))"
    by (rule without_start_code_def)
  from b p dn w m show ?thesis by (intro conjI)
qed

theorem returned_nal_without_start_code_witness:
  "x265_get_compressed_data sample_batch_enc [] =
     Some (Inr \<lparr>g_err = err_success, g_data = Ptr [0, 0, 0, 1, 0x40, 0x01] 4, g_size = 2,
                g_enc = sample_batch_enc\<lparr>nal_output_counter := 2\<rparr>, g_calls = []\<rparr>) \<and>
   returned_nal (sample_batch_enc\<lparr>nal_output_counter := 2\<rparr>) = framed_nal_example \<and>
   nal_sized framed_nal_example \<and>
   declared framed_nal_example = [0, 0, 0, 1, 0x40, 0x01] \<and>
   (4::nat) = start_code_length (declared framed_nal_example) \<and>
   denoted (Ptr [0, 0, 0, 1, 0x40, 0x01] 4) 2 = Some [0x40, 0x01] \<and>
   without_start_code (declared framed_nal_example) = [0x40, 0x01]"
proof -
  let ?g = "\<lparr>g_err = err_success, g_data = Ptr [0, 0, 0, 1, 0x40, 0x01] 4, g_size = 2,
                g_enc = sample_batch_enc\<lparr>nal_output_counter := 2\<rparr>, g_calls = []\<rparr>"
  have r: "returned_nal (sample_batch_enc\<lparr>nal_output_counter := 2\<rparr>) = framed_nal_example"
    by (simp add: returned_nal_def sample_batch_enc_def)
  have s: "nal_sized framed_nal_example"
    and d: "declared framed_nal_example = [0, 0, 0, 1, 0x40, 0x01]"
    by (simp_all add: nal_sized_def declared_def framed_nal_example_def)
  from d have nz: "\<exists>b\<in>set (declared (returned_nal (g_enc ?g))). b \<noteq> 0" by (simp add: r)
  from s have s': "nal_sized (returned_nal (g_enc ?g))" by (simp add: r)
  have dt: "g_data ?g = Ptr [0, 0, 0, 1, 0x40, 0x01] 4" by simp
  note t = returned_nal_without_start_code [OF sample_batch_get dt s' nz]
  from t have "denoted (g_data ?g) (g_size ?g) =
      Some (without_start_code (declared (returned_nal (g_enc ?g))))"
    by (rule conjunct2 [THEN conjunct2, THEN conjunct1])
  then have e6: "denoted (Ptr [0, 0, 0, 1, 0x40, 0x01] 4) 2 = Some [0x40, 0x01]"
    by (simp add: r d without_start_code_def)
  have e5: "(4::nat) = start_code_length (declared framed_nal_example)"
    and e7: "without_start_code (declared framed_nal_example) = [0x40, 0x01]"
    by (simp_all add: d start_code_length_def without_start_code_def)
  from sample_batch_get r s d e5 e6 e7 show ?thesis by (intro conjI)
qed

lemma dropWhile_suffix:
  assumes "dropWhile P (drop c xs) = y # ys"
  shows "drop (length xs - length ys) xs = ys" and "length ys < length xs" and "\<not> P y"
    and "filter (\<lambda>x. \<not> P x) (drop c xs) = y # filter (\<lambda>x. \<not> P x) ys"
proof -
  let ?t = "length (takeWhile P (drop c xs))"
  from assms have d: "drop (?t + c) xs = y # ys"
    by (simp add: dropWhile_eq_drop)
  then have lt: "?t + c < length xs" by (cases "?t + c < length xs") auto
  have "drop (Suc (?t + c)) xs = tl (drop (?t + c) xs)" by (simp add: drop_Suc tl_drop)
  with d have ys: "ys = drop (Suc (?t + c)) xs" by simp
  then have len: "length ys = length xs - Suc (?t + c)" by simp
  with lt show "length ys < length xs" by simp
  from len lt have "length xs - length ys = Suc (?t + c)" by simp
  with ys show "drop (length xs - length ys) xs = ys" by simp
  from assms show ny: "\<not> P y" using hd_dropWhile [of P "drop c xs"] by simp
  have "\<forall>x\<in>set (takeWhile P (drop c xs)). P x" by (auto dest: set_takeWhileD)
  then have "filter (\<lambda>x. \<not> P x) (takeWhile P (drop c xs)) = []"
    by (simp add: filter_empty_conv)
  then have "filter (\<lambda>x. \<not> P x) (takeWhile P (drop c xs) @ dropWhile P (drop c xs)) =
      filter (\<lambda>x. \<not> P x) (dropWhile P (drop c xs))"
    by (simp only: filter_append append_Nil)
  then have "filter (\<lambda>x. \<not> P x) (drop c xs) = filter (\<lambda>x. \<not> P x) (dropWhile P (drop c xs))"
    by (simp only: takeWhile_dropWhile_id)
  then show "filter (\<lambda>x. \<not> P x) (drop c xs) = y # filter (\<lambda>x. \<not> P x) ys"
    using assms ny by simp
qed

lemma pull_all_batch:
  "batch_ok enc \<Longrightarrow> encoder enc \<noteq> None \<Longrightarrow>
   length (batch enc) - unat (nal_output_counter enc) \<le> k \<Longrightarrow>
   pull_all k enc =
     map stripped (filter (\<lambda>n. \<not> sei_nal n) (drop (unat (nal_output_counter enc)) (batch enc)))"
proof (induction k arbitrary: enc)
  case 0
  then show ?case by simp
next
  case (Suc k)
  let ?c = "unat (nal_output_counter enc)"
  from Suc.prems(1) have blen: "length (batch enc) = unat (num_nals enc)"
    by (simp add: batch_ok_def batch_def)
  from Suc.prems(2) have lp: "x265_get_compressed_data enc [] = encode_loop enc [] []"
    by (rule get_compressed_data_loop)
  show ?case
  proof (cases "dropWhile sei_nal (drop ?c (batch enc))")
    case Nil
    then have "filter (\<lambda>n. \<not> sei_nal n) (drop ?c (batch enc)) = []"
      by (simp add: filter_empty_conv)
    moreover from Nil have "nal_loop enc =
        Drained (enc\<lparr>nal_output_counter := max (nal_output_counter enc) (num_nals enc)\<rparr>)"
      by (simp only: nal_loop_batch [OF Suc.prems(1)] list.case)
    ultimately show ?thesis by (simp add: lp encode_loop_Nil)
  next
    case (Cons nal rest)
    let ?enc' = "enc\<lparr>nal_output_counter := of_nat (unat (num_nals enc) - length rest)\<rparr>"
    from Cons have out: "nal_loop enc =
        Output (Ptr (payload nal) (start_code_length (payload nal)))
          (of_nat (length (without_start_code (payload nal)))) ?enc'"
      by (simp only: nal_loop_batch [OF Suc.prems(1)] list.case)
    note sfx = dropWhile_suffix [OF Cons]
    have cu: "unat (of_nat (unat (num_nals enc) - length rest) :: uint32_t) =
        unat (num_nals enc) - length rest"
      by (rule le_unat_uoi [of _ "num_nals enc"]) simp
    have b': "batch ?enc' = batch enc" by (simp add: batch_def)
    from Suc.prems(1) have ok': "batch_ok ?enc'" by (simp add: batch_ok_def batch_def)
    from Suc.prems(2) have e': "encoder ?enc' \<noteq> None" by simp
    have "nal_output_counter ?enc' = of_nat (unat (num_nals enc) - length rest)"
      by simp
    then have c': "unat (nal_output_counter ?enc') = length (batch enc) - length rest"
      by (simp only: cu blen)
    have "length (batch ?enc') - unat (nal_output_counter ?enc') =
        length (batch enc) - (length (batch enc) - length rest)"
      by (simp only: c' b')
    also from sfx(2) have "\<dots> = length rest" by arith
    finally have lr: "length (batch ?enc') - unat (nal_output_counter ?enc') = length rest" .
    have "length (dropWhile sei_nal (drop ?c (batch enc))) \<le> length (drop ?c (batch enc))"
      by (rule length_dropWhile_le)
    then have "Suc (length rest) \<le> length (batch enc) - ?c" by (simp add: Cons)
    with Suc.prems(3) have "length rest \<le> k" by arith
    then have k: "length (batch ?enc') - unat (nal_output_counter ?enc') \<le> k"
      by (simp only: lr)
    from Suc.IH [OF ok' e' k] have
      "pull_all k ?enc' = map stripped (filter (\<lambda>n. \<not> sei_nal n)
         (drop (length (batch enc) - length rest) (batch enc)))"
      by (simp only: c' b')
    with sfx(1) have "pull_all k ?enc' = map stripped (filter (\<lambda>n. \<not> sei_nal n) rest)"
      by simp
    with out sfx(4) show ?thesis
      by (simp add: lp encode_loop_Nil stripped_def)
  qed
qed

text \<open>
  The filter, as far as it holds: \<^verbatim>\<open>x265_get_compressed_data\<close> never returns data of at
  least 3 bytes whose byte 0 is \<open>0x4e\<close> and whose byte 2 is 5; with well-formed NALs, what
  it returns is never an unregistered user data SEI behind its start code. On a
  consistent batch the call skips the SEI NALs from the read cursor on and returns the
  first other NAL, the cursor left behind it; when only SEI NALs remain, the inner loop
  ends with the cursor at the batch count, no NAL returned. Pulled to its end, the batch
  of the state gives exactly its NALs that are no SEI, from the cursor on, in their order.
\<close>

lemma nal_filter_from_cursor:
  "(x265_get_compressed_data enc rs = Some (Inr g) \<and> g_data g = Ptr buf p \<longrightarrow>
      \<not> (3 \<le> sint (g_size g) \<and> buf ! p = 0x4e \<and> buf ! (p + 2) = 5)) \<and>
   ((\<forall>n\<in>offered_nals enc rs. nal_wf n) \<and>
    x265_get_compressed_data enc rs = Some (Inr g) \<and> g_data g = Ptr buf p \<longrightarrow>
      \<not> unregistered_sei (without_start_code buf)) \<and>
   (batch_ok enc \<and> encoder enc \<noteq> None \<and>
    dropWhile sei_nal (drop (unat (nal_output_counter enc)) (batch enc)) = nal # rest \<longrightarrow>
      x265_get_compressed_data enc rs =
        Some (Inr \<lparr>g_err = err_success,
                   g_data = Ptr (payload nal) (start_code_length (payload nal)),
                   g_size = of_nat (length (without_start_code (payload nal))),
                   g_enc = enc\<lparr>nal_output_counter := of_nat (unat (num_nals enc) - length rest)\<rparr>,
                   g_calls = []\<rparr>)) \<and>
   (batch_ok enc \<and>
    dropWhile sei_nal (drop (unat (nal_output_counter enc)) (batch enc)) = [] \<longrightarrow>
      nal_loop enc =
        Drained (enc\<lparr>nal_output_counter := max (nal_output_counter enc) (num_nals enc)\<rparr>)) \<and>
   (batch_ok enc \<and> encoder enc \<noteq> None \<longrightarrow>
      pull_all (length (batch enc)) enc =
        map stripped
          (filter (\<lambda>n. \<not> sei_nal n) (drop (unat (nal_output_counter enc)) (batch enc))))"
proof (intro conjI impI)
  assume a: "x265_get_compressed_data enc rs = Some (Inr g) \<and> g_data g = Ptr buf p"
  then obtain n :: x265_nal
    where "is_unregistered_sei (payload n) p (g_size g) = Inr False" "buf = payload n"
    using get_compressed_data_Ptr [of enc rs g buf p] by blast
  then show "\<not> (3 \<le> sint (g_size g) \<and> buf ! p = 0x4e \<and> buf ! (p + 2) = 5)"
    using is_unregistered_sei_False by blast
next
  assume a: "(\<forall>n\<in>offered_nals enc rs. nal_wf n) \<and>
    x265_get_compressed_data enc rs = Some (Inr g) \<and> g_data g = Ptr buf p"
  then obtain n :: x265_nal where n: "n \<in> offered_nals enc rs" "buf = payload n"
    and sk: "skip_start_code (payload n) (sizeBytes n) = Inr (p, g_size g)"
    and ns: "is_unregistered_sei (payload n) p (g_size g) = Inr False"
    using get_compressed_data_Ptr [of enc rs g buf p] by blast
  from a n have wf: "nal_wf n" by simp
  from skip_start_code_wf [OF wf sk] have p: "p = start_code_length (payload n)"
    and le: "p \<le> length (payload n)"
    and sz: "sint (g_size g) = int (length (payload n)) - int p"
    by simp_all
  from is_unregistered_sei_in_bounds [OF le sz] ns p n
  show "\<not> unregistered_sei (without_start_code buf)"
    by (simp add: without_start_code_drop)
next
  assume a: "batch_ok enc \<and> encoder enc \<noteq> None \<and>
    dropWhile sei_nal (drop (unat (nal_output_counter enc)) (batch enc)) = nal # rest"
  then have ok: "batch_ok enc" and e: "encoder enc \<noteq> None"
    and dw: "dropWhile sei_nal (drop (unat (nal_output_counter enc)) (batch enc)) = nal # rest"
    by simp_all
  have "nal_loop enc =
      Output (Ptr (payload nal) (start_code_length (payload nal)))
        (of_nat (length (without_start_code (payload nal))))
        (enc\<lparr>nal_output_counter := of_nat (unat (num_nals enc) - length rest)\<rparr>)"
    by (simp only: nal_loop_batch [OF ok] dw list.case)
  with e show "x265_get_compressed_data enc rs =
        Some (Inr \<lparr>g_err = err_success,
                   g_data = Ptr (payload nal) (start_code_length (payload nal)),
                   g_size = of_nat (length (without_start_code (payload nal))),
                   g_enc = enc\<lparr>nal_output_counter := of_nat (unat (num_nals enc) - length rest)\<rparr>,
                   g_calls = []\<rparr>)"
    by (cases rs) (simp_all add: get_compressed_data_loop encode_loop_Nil encode_loop_Cons)
next
  assume a: "batch_ok enc \<and>
    dropWhile sei_nal (drop (unat (nal_output_counter enc)) (batch enc)) = []"
  then have ok: "batch_ok enc"
    and dw: "dropWhile sei_nal (drop (unat (nal_output_counter enc)) (batch enc)) = []"
    by simp_all
  show "nal_loop enc =
        Drained (enc\<lparr>nal_output_counter := max (nal_output_counter enc) (num_nals enc)\<rparr>)"
    by (simp only: nal_loop_batch [OF ok] dw list.case)
next
  assume a: "batch_ok enc \<and> encoder enc \<noteq> None"
  then have ok: "batch_ok enc" and e: "encoder enc \<noteq> None" by simp_all
  have "length (batch enc) - unat (nal_output_counter enc) \<le> length (batch enc)" by simp
  from pull_all_batch [OF ok e this]
  show "pull_all (length (batch enc)) enc =
        map stripped
          (filter (\<lambda>n. \<not> sei_nal n) (drop (unat (nal_output_counter enc)) (batch enc)))" .
qed

text \<open>
  C2 fails for a batch that \<^verbatim>\<open>x265_get_compressed_data\<close> fetches itself: the read cursor
  keeps the value it had in the batch before. After a batch of two NALs has been pulled
  (cursor 2), the library answers the fetch with a consistent batch of three NALs, none
  of them an SEI. The call returns the third NAL only; the next call fetches again and
  reports the end of the stream. The first two NALs are never returned.
\<close>

theorem get_compressed_data_drops_refilled_nals:
  "batch (store_batch header_batch drained_enc) =
     [framed_nal_example, sps_nal_example, pps_nal_example] \<and>
   nal_framed framed_nal_example \<and> nal_framed sps_nal_example \<and> nal_framed pps_nal_example \<and>
   \<not> sei_nal framed_nal_example \<and> \<not> sei_nal sps_nal_example \<and> \<not> sei_nal pps_nal_example \<and>
   x265_get_compressed_data drained_enc [header_batch] =
     Some (Inr \<lparr>g_err = err_success, g_data = Ptr (payload pps_nal_example) 3, g_size = 2,
                g_enc = refilled_enc, g_calls = [X265_encoder_encode (Some 1) None]\<rparr>) \<and>
   x265_get_compressed_data refilled_enc [end_of_stream] =
     Some (Inr \<lparr>g_err = err_success, g_data = nullptr, g_size = 0,
                g_enc = refilled_enc\<lparr>num_nals := 0\<rparr>,
                g_calls = [X265_encoder_encode (Some 1) None]\<rparr>)"
  by (simp add: x265_get_compressed_data_def drained_enc_def sample_batch_enc_def refilled_enc_def
      header_batch_def end_of_stream_def store_batch_def encode_loop.simps nal_loop.simps
      skip_start_code_def skip_zero_bytes.simps is_unregistered_sei_def
      batch_def nal_framed_def nal_wf_def sei_nal_def unregistered_sei_def
      without_start_code_def framed_nal_example_def sps_nal_example_def pps_nal_example_def
      word_sless_alt word_sle_eq)

subsection \<open>Without an encoder instance\<close>

text \<open>
  C9: with a null encoder instance handle, \<^verbatim>\<open>x265_get_compressed_data\<close> sets
  \<^verbatim>\<open>*data\<close> to null and \<^verbatim>\<open>*size\<close> to 0, returns success, makes no library call and
  leaves the adapter state as it is.
\<close>

theorem get_compressed_data_without_encoder:
  "encoder enc = None \<Longrightarrow>
   x265_get_compressed_data enc rs =
     Some (Inr \<lparr>g_err = err_success, g_data = nullptr, g_size = 0, g_enc = enc, g_calls = []\<rparr>)"
  by (simp add: x265_get_compressed_data_def)

theorem get_compressed_data_without_encoder_witness:
  "encoder sample_enc = None \<and>
   x265_get_compressed_data sample_enc [end_of_stream] =
     Some (Inr \<lparr>g_err = err_success, g_data = nullptr, g_size = 0, g_enc = sample_enc,
                g_calls = []\<rparr>)"
proof -
  have n: "encoder sample_enc = None" by (simp add: sample_enc_def)
  from get_compressed_data_without_encoder [OF n] n show ?thesis by simp
qed

subsection \<open>Pulling from the wrapped encoder\<close>

lemma drained_enc_simps:
  "encoder drained_enc = Some 1" "nal_output_counter drained_enc = 2" "num_nals drained_enc = 2"
  by (simp_all add: drained_enc_def sample_batch_enc_def)




subsection \<open>Returning\<close>

lemma batch_ok_cong:
  "nals a = nals b \<Longrightarrow> num_nals a = num_nals b \<Longrightarrow> batch_ok a = batch_ok b"
  by (simp add: batch_ok_def batch_def)

lemma batches_ok_cong:
  "nals a = nals b \<Longrightarrow> num_nals a = num_nals b \<Longrightarrow> batches_ok a rs = batches_ok b rs"
proof (induction rs arbitrary: a b)
  case Nil
  then show ?case by (simp add: batch_ok_def batch_def)
next
  case (Cons r rs)
  from Cons.prems have "nals (store_batch r a) = nals (store_batch r b)"
    "num_nals (store_batch r a) = num_nals (store_batch r b)"
    by (simp_all add: store_batch_def split: option.split)
  from Cons.IH [OF this] batch_ok_cong [OF Cons.prems] show ?case by simp
qed

lemma nal_loop_no_fault: "batch_ok enc \<Longrightarrow> nal_loop enc \<noteq> Faulted f"
  by (simp add: nal_loop_batch split: list.split)

lemma encode_loop_returns:
  "batches_ok enc rs \<Longrightarrow> \<exists>r\<in>set rs. result r \<le>s 0 \<Longrightarrow>
   \<exists>g. encode_loop enc rs calls = Some (Inr g)"
proof (induction rs arbitrary: enc calls)
  case Nil
  then show ?case by simp
next
  case (Cons r rs)
  from Cons.prems(1) have ok: "batch_ok enc" and rest: "batches_ok (store_batch r enc) rs"
    by simp_all
  show ?case
  proof (cases "nal_loop enc")
    case (Output d sz enc')
    then show ?thesis by (simp add: encode_loop_Cons)
  next
    case (Drained enc')
    note f = nal_loop_Drained_fields [OF Drained]
    show ?thesis
    proof (cases "result r \<le>s 0")
      case True
      with Drained show ?thesis by (simp add: encode_loop_Cons)
    next
      case False
      with Cons.prems(2) have ex: "\<exists>r\<in>set rs. result r \<le>s 0" by simp
      from f have "nals (store_batch r enc') = nals (store_batch r enc)"
        "num_nals (store_batch r enc') = num_nals (store_batch r enc)"
        by (simp_all add: store_batch_def split: option.split)
      from batches_ok_cong [OF this] rest have "batches_ok (store_batch r enc') rs" by simp
      from Cons.IH [OF this ex] False Drained show ?thesis by (simp add: encode_loop_Cons)
    qed
  next
    case (Faulted f)
    with nal_loop_no_fault [OF ok, of f] show ?thesis by simp
  qed
qed

lemma get_compressed_data_err:
  "x265_get_compressed_data enc rs = Some (Inr g) \<Longrightarrow> g_err g = err_success"
proof (cases "encoder enc = None")
  case True
  assume "x265_get_compressed_data enc rs = Some (Inr g)"
  with True show ?thesis by (auto simp: x265_get_compressed_data_def)
next
  case False
  assume "x265_get_compressed_data enc rs = Some (Inr g)"
  with False have "encode_loop enc rs [] = Some (Inr g)" by (simp add: get_compressed_data_loop)
  from encode_loop_calls [OF this] show ?thesis by blast
qed

lemma get_compressed_data_returns:
  assumes "batches_ok enc rs" and "\<exists>r\<in>set rs. result r \<le>s 0"
  shows "\<exists>g. x265_get_compressed_data enc rs = Some (Inr g)"
proof (cases "encoder enc = None")
  case True
  then show ?thesis by (simp add: x265_get_compressed_data_def)
next
  case False
  with encode_loop_returns [OF assms, of "[]"] show ?thesis
    by (simp add: get_compressed_data_loop)
qed

lemma sample_new_encoder:
  "x265_new_encoder (Some sample_param) =
     Inr (err_success, sample_enc,
          [X265_param_alloc, X265_param_default_preset ''slow'' ''ssim'',
           X265_param_apply_profile ''mainstillpicture''])"
  by (simp add: x265_new_encoder_def sample_param_def sample_enc_def X265_LOG_NONE_def)

lemma sample_encode_image:
  "\<exists>cs. x265_encode_image sample_enc sample_image (Some sample_picture) (Some 1) first_batch =
     Inr (err_success, sample_batch_enc, cs)"
  by (simp add: x265_encode_image_def sample_enc_def sample_image_def sample_batch_enc_def
      first_batch_def store_batch_def Let_def)

lemma drained_encode_image:
  "\<exists>cs. x265_encode_image drained_enc sample_image (Some sample_picture) (Some 2) first_batch =
     Inr (err_success, sample_batch_enc\<lparr>encoder := Some 2\<rparr>, cs)"
  by (simp add: x265_encode_image_def drained_enc_def sample_image_def sample_batch_enc_def
      first_batch_def store_batch_def Let_def)

lemma sample_batch_pull:
  "x265_get_compressed_data sample_batch_enc [] =
     Some (Inr \<lparr>g_err = err_success, g_data = Ptr (payload framed_nal_example) 4, g_size = 2,
                g_enc = drained_enc, g_calls = []\<rparr>)"
  using sample_batch_get by (simp add: drained_enc_def framed_nal_example_def)

lemma drained_end_of_stream:
  "x265_get_compressed_data drained_enc [end_of_stream] =
     Some (Inr \<lparr>g_err = err_success, g_data = nullptr, g_size = 0,
                g_enc = drained_enc\<lparr>num_nals := 0\<rparr>,
                g_calls = [X265_encoder_encode (Some 1) None]\<rparr>)"
  by (simp add: x265_get_compressed_data_def drained_enc_simps encode_loop_Cons nal_loop_done
      end_of_stream_def store_batch_def)

lemma drained_refill:
  "x265_get_compressed_data drained_enc [refill, end_of_stream] =
     Some (Inr \<lparr>g_err = err_success, g_data = nullptr, g_size = 0,
                g_enc = drained_enc\<lparr>nals := [framed_nal_example], num_nals := 0\<rparr>,
                g_calls = [X265_encoder_encode (Some 1) None, X265_encoder_encode (Some 1) None]\<rparr>)"
  by (simp add: x265_get_compressed_data_def drained_enc_simps encode_loop_Cons nal_loop_done
      end_of_stream_def refill_def store_batch_def word_sle_eq)

lemma drained_batches_ok: "batches_ok drained_enc [end_of_stream]"
  using sample_batch_ok
  by (simp add: batch_ok_def batch_def drained_enc_def end_of_stream_def store_batch_def
      sample_batch_enc_def)

text \<open>
  C1: the value every entry point returns is \<open>heif_error_Ok\<close>, \<open>heif_suberror_Unspecified\<close>,
  \<open>''Success''\<close>, whatever the arguments and the library's answers.
  \<^verbatim>\<open>x265_new_encoder\<close> and \<^verbatim>\<open>x265_encode_image\<close> return it whenever the library's
  allocation is not a null pointer, the three setters always, and
  \<^verbatim>\<open>x265_get_compressed_data\<close> whenever it returns; it does return when there is no
  encoder instance, and when the batches are consistent and one of the library's answers
  has a result of at most zero.
\<close>

theorem entry_points_return_success:
  "code err_success = heif_error_Ok \<and> subcode err_success = heif_suberror_Unspecified \<and>
   message err_success = ''Success'' \<and>
   (\<forall>e enc' cs. x265_new_encoder alloc = Inr (e, enc', cs) \<longrightarrow> e = err_success) \<and>
   (\<exists>enc' cs. x265_new_encoder (Some p) = Inr (err_success, enc', cs)) \<and>
   fst (x265_set_param_quality enc q) = err_success \<and>
   fst (x265_set_param_lossless enc q) = err_success \<and>
   fst (x265_set_param_logging_level enc q) = err_success \<and>
   (\<forall>e enc' cs. x265_encode_image enc img pic_alloc opened r = Inr (e, enc', cs) \<longrightarrow>
      e = err_success) \<and>
   (\<exists>enc' cs. x265_encode_image enc img (Some pic) opened r = Inr (err_success, enc', cs)) \<and>
   (\<forall>g. x265_get_compressed_data enc rs = Some (Inr g) \<longrightarrow> g_err g = err_success) \<and>
   (encoder enc = None \<or> (batches_ok enc rs \<and> (\<exists>r\<in>set rs. result r \<le>s 0)) \<longrightarrow>
      (\<exists>g. x265_get_compressed_data enc rs = Some (Inr g) \<and> g_err g = err_success))"
proof (intro conjI allI impI)
  show "code err_success = heif_error_Ok" "subcode err_success = heif_suberror_Unspecified"
    "message err_success = ''Success''"
    by (simp_all add: err_success_def kSuccess_def)
next
  fix e enc' cs assume "x265_new_encoder alloc = Inr (e, enc', cs)"
  then show "e = err_success"
    by (auto simp: x265_new_encoder_def Let_def split: option.splits)
next
  show "\<exists>enc' cs. x265_new_encoder (Some p) = Inr (err_success, enc', cs)"
    by (simp add: x265_new_encoder_def Let_def)
next
  show "fst (x265_set_param_quality enc q) = err_success"
    by (simp add: x265_set_param_quality_def)
  show "fst (x265_set_param_lossless enc q) = err_success"
    by (simp add: x265_set_param_lossless_def)
  show "fst (x265_set_param_logging_level enc q) = err_success"
    by (simp add: x265_set_param_logging_level_def Let_def)
next
  fix e enc' cs assume "x265_encode_image enc img pic_alloc opened r = Inr (e, enc', cs)"
  then show "e = err_success"
    by (auto simp: x265_encode_image_def Let_def split: option.splits)
next
  show "\<exists>enc' cs. x265_encode_image enc img (Some pic) opened r = Inr (err_success, enc', cs)"
    by (simp add: x265_encode_image_def Let_def)
next
  fix g assume "x265_get_compressed_data enc rs = Some (Inr g)"
  then show "g_err g = err_success" by (rule get_compressed_data_err)
next
  assume a: "encoder enc = None \<or> (batches_ok enc rs \<and> (\<exists>r\<in>set rs. result r \<le>s 0))"
  have "\<exists>g. x265_get_compressed_data enc rs = Some (Inr g)"
  proof (cases "encoder enc = None")
    case True
    then show ?thesis by (simp add: x265_get_compressed_data_def)
  next
    case False
    with a get_compressed_data_returns show ?thesis by blast
  qed
  with get_compressed_data_err
  show "\<exists>g. x265_get_compressed_data enc rs = Some (Inr g) \<and> g_err g = err_success"
    by blast
qed

theorem entry_points_return_success_witness:
  "x265_new_encoder (Some sample_param) =
     Inr (err_success, sample_enc,
          [X265_param_alloc, X265_param_default_preset ''slow'' ''ssim'',
           X265_param_apply_profile ''mainstillpicture'']) \<and>
   (\<exists>cs. x265_encode_image drained_enc sample_image (Some sample_picture) (Some 2) first_batch =
     Inr (err_success, sample_batch_enc\<lparr>encoder := Some 2\<rparr>, cs)) \<and>
   batches_ok drained_enc [end_of_stream] \<and> result end_of_stream \<le>s 0 \<and>
   x265_get_compressed_data drained_enc [end_of_stream] =
     Some (Inr \<lparr>g_err = err_success, g_data = nullptr, g_size = 0,
                g_enc = drained_enc\<lparr>num_nals := 0\<rparr>,
                g_calls = [X265_encoder_encode (Some 1) None]\<rparr>) \<and>
   fst (x265_set_param_quality drained_enc 50) = err_success \<and>
   code err_success = heif_error_Ok"
proof -
  note t = entry_points_return_success [where alloc = "Some sample_param" and p = sample_param
      and enc = drained_enc and q = 50 and img = sample_image
      and pic_alloc = "Some sample_picture" and pic = sample_picture and opened = "Some 2"
      and r = first_batch and rs = "[end_of_stream]"]
  have r: "result end_of_stream \<le>s 0" by (simp add: end_of_stream_def)
  from t sample_new_encoder drained_encode_image drained_batches_ok r drained_end_of_stream
  show ?thesis by simp
qed

subsection \<open>The read cursor and the batch count\<close>

lemma word_of_nat_le_unat: "k \<le> unat (n::uint32_t) \<Longrightarrow> (of_nat k :: uint32_t) \<le> n"
proof -
  assume a: "k \<le> unat n"
  then have "unat (of_nat k :: uint32_t) = k" by (rule le_unat_uoi)
  with a show ?thesis by (simp add: word_le_nat_alt)
qed

lemma cursor_invariant_elsewhere:
  "(x265_new_encoder alloc = Inr (e, enc', cs) \<longrightarrow>
      num_nals enc' = 0 \<and> nal_output_counter enc' = 0) \<and>
   (x265_encode_image enc img pic_alloc opened r = Inr (e, enc', cs) \<longrightarrow>
      nal_output_counter enc' = 0) \<and>
   (nal_loop enc = Output d sz enc' \<longrightarrow>
      num_nals enc' = num_nals enc \<and> nal_output_counter enc' \<le> num_nals enc') \<and>
   (nal_output_counter enc \<le> num_nals enc \<and> nal_loop enc = Drained enc' \<longrightarrow>
      num_nals enc' = num_nals enc \<and> nal_output_counter enc' = num_nals enc')"
proof -
  have new: "num_nals enc' = 0 \<and> nal_output_counter enc' = 0"
    if "x265_new_encoder alloc = Inr (e, enc', cs)"
    using that by (auto simp: x265_new_encoder_def Let_def split: option.splits)
  have img: "nal_output_counter enc' = 0"
    if "x265_encode_image enc img pic_alloc opened r = Inr (e, enc', cs)"
    using that by (auto simp: x265_encode_image_def Let_def split: option.splits)
  have out: "num_nals enc' = num_nals enc \<and> nal_output_counter enc' \<le> num_nals enc'"
    if "nal_loop enc = Output d sz enc'"
  proof -
    from nal_loop_Output [OF that] obtain i where i: "i < unat (num_nals enc)"
      and e: "enc' = enc\<lparr>nal_output_counter := of_nat (Suc i)\<rparr>" by blast
    from i have "Suc i \<le> unat (num_nals enc)" by simp
    then have "(of_nat (Suc i) :: uint32_t) \<le> num_nals enc" by (rule word_of_nat_le_unat)
    with e show ?thesis by simp
  qed
  have dr: "num_nals enc' = num_nals enc \<and> nal_output_counter enc' = num_nals enc'"
    if "nal_output_counter enc \<le> num_nals enc" and "nal_loop enc = Drained enc'"
    using nal_loop_Drained [OF that(2)] that(1) by (simp add: max_def)
  from new img out dr show ?thesis by blast
qed

text \<open>
  C6 fails in \<^verbatim>\<open>x265_get_compressed_data\<close>: the batch it fetches replaces \<^verbatim>\<open>num_nals\<close>
  while the read cursor keeps its value. A new adapter encodes an image and receives two
  NALs; the first pull returns the second NAL (the first is an SEI) and leaves the cursor
  at 2 = \<^verbatim>\<open>num_nals\<close>. The next pull fetches; the library answers 0 NALs and the result 0:
  the state now has the cursor 2 above \<^verbatim>\<open>num_nals\<close> = 0. When the library answers with
  a batch of one NAL instead, that NAL is never returned: the cursor 2 is not below 1.
\<close>

theorem get_compressed_data_stale_cursor:
  "x265_new_encoder (Some sample_param) =
     Inr (err_success, sample_enc,
          [X265_param_alloc, X265_param_default_preset ''slow'' ''ssim'',
           X265_param_apply_profile ''mainstillpicture'']) \<and>
   (\<exists>cs. x265_encode_image sample_enc sample_image (Some sample_picture) (Some 1) first_batch =
     Inr (err_success, sample_batch_enc, cs)) \<and>
   x265_get_compressed_data sample_batch_enc [] =
     Some (Inr \<lparr>g_err = err_success, g_data = Ptr (payload framed_nal_example) 4, g_size = 2,
                g_enc = drained_enc, g_calls = []\<rparr>) \<and>
   nal_output_counter drained_enc \<le> num_nals drained_enc \<and>
   x265_get_compressed_data drained_enc [end_of_stream] =
     Some (Inr \<lparr>g_err = err_success, g_data = nullptr, g_size = 0,
                g_enc = drained_enc\<lparr>num_nals := 0\<rparr>,
                g_calls = [X265_encoder_encode (Some 1) None]\<rparr>) \<and>
   nal_output_counter (drained_enc\<lparr>num_nals := 0\<rparr>) = 2 \<and>
   num_nals (drained_enc\<lparr>num_nals := 0\<rparr>) = 0 \<and>
   \<not> nal_output_counter (drained_enc\<lparr>num_nals := 0\<rparr>) \<le> num_nals (drained_enc\<lparr>num_nals := 0\<rparr>) \<and>
   x265_get_compressed_data drained_enc [refill, end_of_stream] =
     Some (Inr \<lparr>g_err = err_success, g_data = nullptr, g_size = 0,
                g_enc = drained_enc\<lparr>nals := [framed_nal_example], num_nals := 0\<rparr>,
                g_calls = [X265_encoder_encode (Some 1) None, X265_encoder_encode (Some 1) None]\<rparr>)"
  using sample_new_encoder sample_encode_image sample_batch_pull drained_end_of_stream drained_refill
  by (simp add: drained_enc_simps)

subsection \<open>Lifecycle of the encoder instance\<close>

lemma never_two_open_start: "never_two_open os cs \<Longrightarrow> length os \<le> 1"
  by (cases cs) simp_all

lemma never_two_open_append:
  "never_two_open os (a @ b) \<longleftrightarrow> never_two_open os a \<and> never_two_open (fold track_open a os) b"
proof (induction a arbitrary: os)
  case Nil
  show ?case using never_two_open_start [of os b] by auto
next
  case (Cons c a)
  then show ?case by auto
qed

lemma open_of_length: "length (open_of enc) \<le> 1"
  by (simp add: open_of_def split: option.split)

lemma encode_calls_track:
  "fold track_open (replicate k (X265_encoder_encode e None)) os = os"
  by (induction k) simp_all

lemma encode_calls_never_two:
  "length os \<le> 1 \<Longrightarrow> never_two_open os (replicate k (X265_encoder_encode e None))"
  by (induction k) simp_all

lemma get_compressed_data_calls:
  assumes "x265_get_compressed_data enc rs = Some (Inr g)"
  shows "\<exists>k. g_calls g = replicate k (encode_call enc) \<and> encoder (g_enc g) = encoder enc"
proof (cases "encoder enc = None")
  case True
  with assms show ?thesis by (auto simp: x265_get_compressed_data_def)
next
  case False
  with assms have "encode_loop enc rs [] = Some (Inr g)" by (simp add: get_compressed_data_loop)
  from encode_loop_calls [OF this] show ?thesis by auto
qed

lemma close_if_open_track:
  "fold track_open (close_if_open enc) (open_of enc) = []"
  "never_two_open (open_of enc) (close_if_open enc)"
  by (simp_all add: close_if_open_def open_of_def split: option.split)

lemma encode_image_calls:
  assumes "x265_encode_image enc img pic_alloc opened r = Inr (e, enc', cs)"
  shows "\<exists>pic. cs = [X265_picture_alloc, X265_picture_init (params enc)] @
            (case encoder enc of Some h \<Rightarrow> [X265_encoder_close h] | None \<Rightarrow> []) @
            [X265_encoder_open (params enc') opened, X265_encoder_encode opened (Some pic),
             X265_picture_free]"
    and "encoder enc' = opened"
  using assms
  by (auto simp: x265_encode_image_def Let_def close_if_open_def store_batch_def
      split: option.splits)

lemma encode_image_track:
  assumes "x265_encode_image enc img pic_alloc opened r = Inr (e, enc', cs)"
  shows "never_two_open (open_of enc) cs \<and> fold track_open cs (open_of enc) = open_of enc'"
proof -
  from encode_image_calls [OF assms] obtain pic where
    cs: "cs = [X265_picture_alloc, X265_picture_init (params enc)] @
            (case encoder enc of Some h \<Rightarrow> [X265_encoder_close h] | None \<Rightarrow> []) @
            [X265_encoder_open (params enc') opened, X265_encoder_encode opened (Some pic),
             X265_picture_free]"
    and e: "encoder enc' = opened" by blast
  show ?thesis
    by (cases "encoder enc"; cases opened) (simp_all add: cs e open_of_def)
qed

lemma run_call_track:
  assumes "run_call enc a = Some (enc', cs)"
  shows "never_two_open (open_of enc) cs \<and> fold track_open cs (open_of enc) = open_of enc'"
proof (cases a)
  case (Set_param_quality q)
  with assms show ?thesis
    using open_of_length [of enc] by (auto simp: x265_set_param_quality_def open_of_def)
next
  case (Set_param_lossless b)
  with assms show ?thesis
    using open_of_length [of enc] by (auto simp: x265_set_param_lossless_def open_of_def)
next
  case (Set_param_logging_level l)
  with assms show ?thesis
    using open_of_length [of enc]
    by (auto simp: x265_set_param_logging_level_def open_of_def Let_def)
next
  case (Encode_image img pic_alloc opened r)
  with assms obtain e where "x265_encode_image enc img pic_alloc opened r = Inr (e, enc', cs)"
    by (auto split: sum.splits)
  then show ?thesis by (rule encode_image_track)
next
  case (Get_compressed_data rs)
  with assms obtain g where g: "x265_get_compressed_data enc rs = Some (Inr g)"
    and e: "enc' = g_enc g" "cs = g_calls g"
    by (auto split: option.splits sum.splits)
  from get_compressed_data_calls [OF g] obtain k where
    k: "g_calls g = replicate k (X265_encoder_encode (encoder enc) None)"
    and same: "encoder (g_enc g) = encoder enc"
    by (auto simp: encode_call_def)
  from same e have "open_of enc' = open_of enc" by (simp add: open_of_def)
  moreover have "fold track_open cs (open_of enc) = open_of enc"
    unfolding e k by (rule encode_calls_track)
  moreover have "never_two_open (open_of enc) cs"
    unfolding e k by (rule encode_calls_never_two) (rule open_of_length)
  ultimately show ?thesis by simp
qed

lemma run_calls_track:
  "run_calls enc as = Some (enc', cs) \<Longrightarrow>
   never_two_open (open_of enc) cs \<and> fold track_open cs (open_of enc) = open_of enc'"
proof (induction as arbitrary: enc cs)
  case Nil
  then show ?case using open_of_length [of enc] by simp
next
  case (Cons a as)
  from Cons.prems obtain enc1 cs1 cs2 where
    a: "run_call enc a = Some (enc1, cs1)" and r: "run_calls enc1 as = Some (enc', cs2)"
    and cs: "cs = cs1 @ cs2"
    by (auto split: option.splits)
  from run_call_track [OF a] Cons.IH [OF r] cs show ?case
    by (simp add: never_two_open_append)
qed

lemma sample_session_runs:
  "\<exists>cs. run_calls sample_enc sample_session = Some (sample_batch_enc\<lparr>encoder := Some 2\<rparr>, cs)"
proof -
  obtain cs1 where 1: "x265_encode_image sample_enc sample_image (Some sample_picture) (Some 1)
      first_batch = Inr (err_success, sample_batch_enc, cs1)"
    using sample_encode_image by blast
  have "\<exists>cs. x265_encode_image (drained_enc\<lparr>num_nals := 0\<rparr>) sample_image (Some sample_picture)
      (Some 2) first_batch = Inr (err_success, sample_batch_enc\<lparr>encoder := Some 2\<rparr>, cs)"
    by (simp add: x265_encode_image_def drained_enc_def sample_image_def sample_batch_enc_def
      first_batch_def store_batch_def Let_def)
  then obtain cs2 where 2: "x265_encode_image (drained_enc\<lparr>num_nals := 0\<rparr>) sample_image
      (Some sample_picture) (Some 2) first_batch =
      Inr (err_success, sample_batch_enc\<lparr>encoder := Some 2\<rparr>, cs2)"
    by blast
  show ?thesis
    using 1 2 sample_batch_pull drained_end_of_stream by (simp add: sample_session_def)
qed

text \<open>
  C7: in every session of an adapter, from \<^verbatim>\<open>x265_new_encoder\<close> to
  \<^verbatim>\<open>x265_free_encoder\<close>, at most one encoder instance is open at any point of the
  library calls made; between the entry points the open instance is the one the state's
  handle names; after \<^verbatim>\<open>x265_free_encoder\<close> none is open.
  \<^verbatim>\<open>x265_free_encoder\<close> frees the parameter object and closes the instance exactly when
  the handle is not null; \<^verbatim>\<open>x265_encode_image\<close> closes the instance of a non-null handle
  before it opens the new one, whose handle it stores.
\<close>

theorem encoder_instance_lifecycle:
  assumes "x265_new_encoder alloc = Inr (e, enc0, c0)"
    and "run_calls enc0 as = Some (enc, cs)"
  shows "never_two_open [] (c0 @ cs @ x265_free_encoder enc) \<and>
    fold track_open (c0 @ cs) [] = (case encoder enc of None \<Rightarrow> [] | Some h \<Rightarrow> [h]) \<and>
    fold track_open (c0 @ cs @ x265_free_encoder enc) [] = [] \<and>
    x265_free_encoder enc =
      X265_param_free (params enc) #
      (case encoder enc of None \<Rightarrow> [] | Some h \<Rightarrow> [X265_encoder_close h]) \<and>
    (\<forall>img pic_alloc opened r e' enc' cs'.
       x265_encode_image enc img pic_alloc opened r = Inr (e', enc', cs') \<longrightarrow>
         encoder enc' = opened \<and>
         (\<exists>pic. cs' = [X265_picture_alloc, X265_picture_init (params enc)] @
            (case encoder enc of Some h \<Rightarrow> [X265_encoder_close h] | None \<Rightarrow> []) @
            [X265_encoder_open (params enc') opened, X265_encoder_encode opened (Some pic),
             X265_picture_free]))"
proof -
  from assms(1) have c0: "c0 = [X265_param_alloc, X265_param_default_preset ''slow'' ''ssim'',
      X265_param_apply_profile ''mainstillpicture'']" and e0: "encoder enc0 = None"
    by (auto simp: x265_new_encoder_def Let_def split: option.splits)
  from e0 have o0: "open_of enc0 = []" by (simp add: open_of_def)
  from c0 have n0: "never_two_open [] c0" and f0: "fold track_open c0 [] = []" by simp_all
  from run_calls_track [OF assms(2)] o0 have n1: "never_two_open [] cs"
    and f1: "fold track_open cs [] = open_of enc" by simp_all
  have fr: "x265_free_encoder enc =
      X265_param_free (params enc) #
      (case encoder enc of None \<Rightarrow> [] | Some h \<Rightarrow> [X265_encoder_close h])"
    by (simp add: x265_free_encoder_def close_if_open_def split: option.split)
  have n2: "never_two_open (open_of enc) (x265_free_encoder enc)"
    and f2: "fold track_open (x265_free_encoder enc) (open_of enc) = []"
    by (simp_all add: fr open_of_def split: option.split)
  from n0 f0 n1 f1 n2 have a: "never_two_open [] (c0 @ cs @ x265_free_encoder enc)"
    by (simp add: never_two_open_append)
  from f0 f1 have b: "fold track_open (c0 @ cs) [] =
      (case encoder enc of None \<Rightarrow> [] | Some h \<Rightarrow> [h])"
    by (simp add: open_of_def)
  from f0 f1 f2 have c: "fold track_open (c0 @ cs @ x265_free_encoder enc) [] = []" by simp
  from a b c fr encode_image_calls [of enc] show ?thesis by blast
qed

theorem encoder_instance_lifecycle_witness:
  "x265_new_encoder (Some sample_param) =
     Inr (err_success, sample_enc,
          [X265_param_alloc, X265_param_default_preset ''slow'' ''ssim'',
           X265_param_apply_profile ''mainstillpicture'']) \<and>
   (\<exists>cs. run_calls sample_enc sample_session =
           Some (sample_batch_enc\<lparr>encoder := Some 2\<rparr>, cs) \<and>
         never_two_open []
           ([X265_param_alloc, X265_param_default_preset ''slow'' ''ssim'',
             X265_param_apply_profile ''mainstillpicture''] @ cs @
            x265_free_encoder (sample_batch_enc\<lparr>encoder := Some 2\<rparr>)) \<and>
         fold track_open
           ([X265_param_alloc, X265_param_default_preset ''slow'' ''ssim'',
             X265_param_apply_profile ''mainstillpicture''] @ cs) [] = [2] \<and>
         fold track_open
           ([X265_param_alloc, X265_param_default_preset ''slow'' ''ssim'',
             X265_param_apply_profile ''mainstillpicture''] @ cs @
            x265_free_encoder (sample_batch_enc\<lparr>encoder := Some 2\<rparr>)) [] = []) \<and>
   x265_free_encoder (sample_batch_enc\<lparr>encoder := Some 2\<rparr>) =
     [X265_param_free (params sample_batch_enc), X265_encoder_close 2]"
proof -
  from sample_session_runs obtain cs where
    run: "run_calls sample_enc sample_session = Some (sample_batch_enc\<lparr>encoder := Some 2\<rparr>, cs)"
    by blast
  let ?c0 = "[X265_param_alloc, X265_param_default_preset ''slow'' ''ssim'',
             X265_param_apply_profile ''mainstillpicture'']"
  let ?enc = "sample_batch_enc\<lparr>encoder := Some 2\<rparr>"
  note t = encoder_instance_lifecycle [OF sample_new_encoder run]
  from t have a: "never_two_open [] (?c0 @ cs @ x265_free_encoder ?enc)" by blast
  from t have "fold track_open (?c0 @ cs) [] =
      (case encoder ?enc of None \<Rightarrow> [] | Some h \<Rightarrow> [h])" by blast
  then have b: "fold track_open (?c0 @ cs) [] = [2]" by simp
  from t have c: "fold track_open (?c0 @ cs @ x265_free_encoder ?enc) [] = []" by blast
  from t have "x265_free_encoder ?enc =
      X265_param_free (params ?enc) #
      (case encoder ?enc of None \<Rightarrow> [] | Some h \<Rightarrow> [X265_encoder_close h])" by blast
  then have d: "x265_free_encoder ?enc =
      [X265_param_free (params sample_batch_enc), X265_encoder_close 2]" by simp
  from run a b c have "\<exists>cs. run_calls sample_enc sample_session = Some (?enc, cs) \<and>
      never_two_open [] (?c0 @ cs @ x265_free_encoder ?enc) \<and>
      fold track_open (?c0 @ cs) [] = [2] \<and>
      fold track_open (?c0 @ cs @ x265_free_encoder ?enc) [] = []" by blast
  with sample_new_encoder d show ?thesis by blast
qed

subsection \<open>The answers a call uses\<close>

text \<open>
  \<^verbatim>\<open>x265_get_compressed_data\<close> depends on the answers of \<^verbatim>\<open>x265_encoder_encode\<close>
  that it has asked for only: answers that would come later do not change what it
  returns, and it asks once per answer it uses.
\<close>

lemma encode_loop_more_answers:
  "encode_loop enc rs calls = Some x \<Longrightarrow> encode_loop enc (rs @ later) calls = Some x"
proof (induction rs arbitrary: enc calls)
  case Nil
  then show ?case
    by (cases later) (auto simp: encode_loop_Nil encode_loop_Cons split: nal_loop_result.splits)
next
  case (Cons r rs)
  show ?case
  proof (cases "nal_loop enc")
    case (Output d sz enc')
    with Cons.prems show ?thesis by (simp add: encode_loop_Cons)
  next
    case (Drained enc')
    show ?thesis
    proof (cases "result r \<le>s 0")
      case True
      with Cons.prems Drained show ?thesis by (simp add: encode_loop_Cons)
    next
      case False
      with Cons.prems Drained have
        "encode_loop (store_batch r enc') rs (calls @ [X265_encoder_encode (encoder enc') None]) = Some x"
        by (simp add: encode_loop_Cons)
      from Cons.IH [OF this] False Drained show ?thesis by (simp add: encode_loop_Cons)
    qed
  next
    case (Faulted f)
    with Cons.prems show ?thesis by (simp add: encode_loop_Cons)
  qed
qed

lemma get_compressed_data_more_answers:
  "x265_get_compressed_data enc rs = Some x \<Longrightarrow> x265_get_compressed_data enc (rs @ later) = Some x"
  by (auto simp: x265_get_compressed_data_def encode_loop_more_answers)

lemma get_compressed_data_answers_used:
  assumes "x265_get_compressed_data enc rs = Some (Inr g)"
  shows "length (g_calls g) \<le> length rs"
proof (cases "encoder enc = None")
  case True
  with assms show ?thesis by (auto simp: x265_get_compressed_data_def)
next
  case False
  with assms have "encode_loop enc rs [] = Some (Inr g)" by (simp add: get_compressed_data_loop)
  from encode_loop_calls [OF this] show ?thesis by auto
qed

end
